theory Spec2Isabelle
  imports Main "HOL-Library.Word"
begin

unbundle bit_operations_syntax

section \<open>Machine types\<close>

type_synonym u8 = "8 word"
type_synonym u16 = "16 word"

text \<open>
  Reading or writing an array outside its bounds is undefined behaviour in C++.
  The model makes every such access an explicit fault.
\<close>

datatype fault = OutOfBounds

section \<open>The checksum routine\<close>

text \<open>
  The inner loop of \<open>atca_calculate_crc\<close>:
  \<^verbatim>\<open>for (shift_register = 0x01; shift_register > 0x00; shift_register <<= 1)\<close>.
  The mask is an 8-bit value, so the shift drops the top bit and the mask reaches zero.
  \<open>crc_register\<close> is a 16-bit value: \<open><<= 1\<close> drops its top bit as well.
\<close>

definition polynom :: u16 where
  "polynom = 0x8005"

function crc_bit_loop :: "u8 \<Rightarrow> u8 \<Rightarrow> u16 \<Rightarrow> u16" where
  "crc_bit_loop byte shift_register crc_register =
     (if shift_register > 0x00 then
        (let data_bit = (if byte AND shift_register \<noteq> 0 then 1 else 0 :: u8);
             crc_bit = (ucast (drop_bit 15 crc_register) :: u8);
             crc_register1 = push_bit 1 crc_register;
             crc_register2 = (if data_bit \<noteq> crc_bit then crc_register1 XOR polynom
                              else crc_register1)
         in crc_bit_loop byte (push_bit 1 shift_register) crc_register2)
      else crc_register)"
  by pat_completeness auto
termination
proof (relation "measure (\<lambda>(byte, shift_register, crc_register).
          (LEAST n. push_bit n shift_register = 0))")
  show "wf (measure (\<lambda>(byte :: u8, shift_register :: u8, crc_register :: u16).
          (LEAST n. push_bit n shift_register = 0)))"
    by simp
next
  fix byte shift_register :: u8 and crc_register :: u16
  fix xc :: u16
  assume pos: "0 < shift_register"
  define k where "k = (LEAST n. push_bit n shift_register = 0)"
  have z8: "push_bit 8 shift_register = 0"
    by simp
  have zk: "push_bit k shift_register = 0"
    unfolding k_def using z8 by (rule LeastI)
  have "k \<noteq> 0"
    using zk pos by (cases "k = 0") auto
  then obtain j where j: "k = Suc j"
    by (cases k) auto
  have "push_bit j (push_bit 1 shift_register) = 0"
    using zk j by (simp add: push_bit_push_bit)
  then have "(LEAST n. push_bit n (push_bit 1 shift_register) = 0) \<le> j"
    by (rule Least_le)
  then show "((byte, push_bit 1 shift_register, xc), byte, shift_register, crc_register)
      \<in> measure (\<lambda>(byte, shift_register, crc_register).
          (LEAST n. push_bit n shift_register = 0))"
    using j by (simp add: k_def)
qed

declare crc_bit_loop.simps [simp del]

text \<open>
  The outer loop \<^verbatim>\<open>for (counter = 0; counter < length; counter++)\<close> reads
  \<open>data[counter]\<close>; \<open>data\<close> is modelled by the list of the bytes of the array it
  points to, and a read past the end of that array is a fault.
\<close>

function crc_byte_loop :: "u8 \<Rightarrow> u8 list \<Rightarrow> u8 \<Rightarrow> u16 \<Rightarrow> fault + u16" where
  "crc_byte_loop len data counter crc_register =
     (if counter < len then
        (if unat counter < length data then
           crc_byte_loop len data (counter + 1)
             (crc_bit_loop (data ! unat counter) 0x01 crc_register)
         else Inl OutOfBounds)
      else Inr crc_register)"
  by pat_completeness auto
termination
proof (relation "measure (\<lambda>(len, data, counter, crc_register). unat len - unat counter)")
  show "wf (measure (\<lambda>(len :: u8, data :: u8 list, counter :: u8, crc_register :: u16).
          unat len - unat counter))"
    by simp
next
  fix len counter :: u8 and data :: "u8 list" and crc_register :: u16
  assume lt: "counter < len"
  then have "unat counter < unat len"
    by (simp add: word_less_nat_alt)
  moreover have "unat len < 256"
    using unsigned_less [of len, where 'a = nat] by simp
  ultimately have "unat (counter + 1) = unat counter + 1"
    by (simp add: unat_word_ariths)
  with \<open>unat counter < unat len\<close>
  show "((len, data, counter + 1,
        crc_bit_loop (data ! unat counter) 0x01 crc_register),
       len, data, counter, crc_register)
      \<in> measure (\<lambda>(len, data, counter, crc_register). unat len - unat counter)"
    by simp
qed

declare crc_byte_loop.simps [simp del]

section \<open>The bus transport\<close>

text \<open>
  The two-wire bus object behind \<open>_i2cPort\<close> belongs to the host platform, not to this
  driver. The model keeps what the driver can observe of it: the transmissions it
  completed, the read requests it issued, and the bytes that a read request made
  available. What the device answers is a parameter: \<open>slave p n\<close> is the byte sequence the
  device is ready to send on the \<open>n\<close>-th read request of the run. A request for
  \<open>quantity\<close> bytes clocks in at most \<open>quantity\<close> of them (the device may send fewer,
  or none).
\<close>

record twowire =
  slave :: "nat \<Rightarrow> u8 list"
  requests :: "(u8 \<times> u8) list"
  rx :: "u8 list"
  tx_addr :: u8
  tx :: "u8 list"
  sent :: "(u8 \<times> u8 list) list"

definition wire_beginTransmission :: "u8 \<Rightarrow> twowire \<Rightarrow> twowire" where
  "wire_beginTransmission address p = p\<lparr>tx_addr := address, tx := []\<rparr>"

definition wire_write :: "u8 list \<Rightarrow> twowire \<Rightarrow> twowire" where
  "wire_write bytes p = p\<lparr>tx := tx p @ bytes\<rparr>"

definition wire_endTransmission :: "twowire \<Rightarrow> twowire" where
  "wire_endTransmission p = p\<lparr>sent := sent p @ [(tx_addr p, tx p)]\<rparr>"

definition wire_requestFrom :: "u8 \<Rightarrow> u8 \<Rightarrow> twowire \<Rightarrow> twowire" where
  "wire_requestFrom address quantity p =
     p\<lparr>rx := take (unat quantity) (slave p (length (requests p))),
       requests := requests p @ [(address, quantity)]\<rparr>"

definition wire_available :: "twowire \<Rightarrow> bool" where
  "wire_available p = (rx p \<noteq> [])"

definition wire_read :: "twowire \<Rightarrow> u8 \<times> twowire" where
  "wire_read p = (case rx p of [] \<Rightarrow> (0xFF, p) | b # bs \<Rightarrow> (b, p\<lparr>rx := bs\<rparr>))"

section \<open>The driver object\<close>

text \<open>
  Modelled from the spec: the fields of the class and the macros. The header that
  declares them is not among the sources verified here; the data model of the
  specification names the fields. \<open>inputBuffer\<close> is the response buffer, a byte array
  of fixed capacity: the capacity is the length of the list, and every capacity is
  allowed. \<open>countGlobal\<close> is the response count tracker, taken as an 8-bit counter (the
  code compares it with a byte of the buffer and passes it on as the 8-bit length of
  the checksum routine). \<open>crc\<close> is the checksum pair \<open>crc[0]\<close>, \<open>crc[1]\<close>.
  \<open>random32Bytes\<close> is the random output buffer, a byte array; the specification fixes
  its size at 32, which the theorems that need it assume. The values of the macros are
  not specified: they are the fields of \<open>macros\<close>, a parameter of the operations that
  use them.

  The delays and the diagnostic output on the serial console have no effect on the
  state below and are left out; the \<open>debug\<close> flag only selects diagnostic output.
\<close>

record ateccx08a =
  i2cPort :: twowire
  i2caddr :: u8
  inputBuffer :: "u8 list"
  countGlobal :: u8
  crc :: "u8 \<times> u8"
  random32Bytes :: "u8 list"

record macros =
  WORD_ADDRESS_VALUE_COMMAND :: u8
  WORD_ADDRESS_VALUE_IDLE :: u8
  COMMAND_OPCODE_INFO :: u8
  COMMAND_OPCODE_RANDOM :: u8

text \<open>An array read at a C \<open>int\<close> index.\<close>

definition array_get :: "u8 list \<Rightarrow> int \<Rightarrow> fault + u8" where
  "array_get xs i = (if 0 \<le> i \<and> i < int (length xs) then Inr (xs ! nat i) else Inl OutOfBounds)"

definition atca_calculate_crc :: "u8 \<Rightarrow> u8 list \<Rightarrow> ateccx08a \<Rightarrow> fault + ateccx08a" where
  "atca_calculate_crc len data s =
     (case crc_byte_loop len data 0 0 of
        Inl e \<Rightarrow> Inl e
      | Inr crc_register \<Rightarrow>
          Inr (s\<lparr>crc := (ucast (crc_register AND 0x00FF), ucast (drop_bit 8 crc_register))\<rparr>))"

function clean_loop :: "nat \<Rightarrow> ateccx08a \<Rightarrow> ateccx08a" where
  "clean_loop i s =
     (if i < length (inputBuffer s)
      then clean_loop (i + 1) (s\<lparr>inputBuffer := (inputBuffer s)[i := 0]\<rparr>)
      else s)"
  by pat_completeness auto
termination
proof (relation "measure (\<lambda>(i, s). length (inputBuffer s) - i)")
  show "wf (measure (\<lambda>(i :: nat, s :: ateccx08a). length (inputBuffer s) - i))"
    by simp
next
  fix i :: nat and s :: ateccx08a
  assume "i < length (inputBuffer s)"
  then show "((i + 1, s\<lparr>inputBuffer := (inputBuffer s)[i := 0]\<rparr>), i, s)
      \<in> measure (\<lambda>(i, s). length (inputBuffer s) - i)"
    by simp
qed

declare clean_loop.simps [simp del]

definition cleanInputBuffer :: "ateccx08a \<Rightarrow> ateccx08a" where
  "cleanInputBuffer s = clean_loop 0 s"

section \<open>Response reception\<close>

text \<open>
  The inner loop of \<open>receiveResponseData\<close>:
  \<^verbatim>\<open>while (_i2cPort->available()) { inputBuffer[countGlobal] = _i2cPort->read(); length--; countGlobal++; }\<close>.
  It ends when the bytes made available by the last request are used up.
\<close>

function read_loop :: "u8 \<Rightarrow> ateccx08a \<Rightarrow> fault + (u8 \<times> ateccx08a)" where
  "read_loop len s =
     (if wire_available (i2cPort s) then
        (let (b, p) = wire_read (i2cPort s) in
         if unat (countGlobal s) < length (inputBuffer s) then
           read_loop (len - 1)
             (s\<lparr>i2cPort := p,
                inputBuffer := (inputBuffer s)[unat (countGlobal s) := b],
                countGlobal := countGlobal s + 1\<rparr>)
         else Inl OutOfBounds)
      else Inr (len, s))"
  by pat_completeness auto
termination
proof (relation "measure (\<lambda>(len, s). length (rx (i2cPort s)))")
  show "wf (measure (\<lambda>(len :: u8, s :: ateccx08a). length (rx (i2cPort s))))"
    by simp
next
  fix len :: u8 and s :: ateccx08a and x :: "u8 \<times> twowire" and b :: u8 and p :: twowire
  assume "wire_available (i2cPort s)" and "x = wire_read (i2cPort s)" and "(b, p) = x"
  then have "length (rx p) < length (rx (i2cPort s))"
    by (cases "rx (i2cPort s)") (auto simp: wire_available_def wire_read_def)
  then show "((len - 1,
        s\<lparr>i2cPort := p, inputBuffer := (inputBuffer s)[unat (countGlobal s) := b],
          countGlobal := countGlobal s + 1\<rparr>),
       len, s)
      \<in> measure (\<lambda>(len, s). length (rx (i2cPort s)))"
    by simp
qed

declare read_loop.simps [simp del]

text \<open>
  The outer loop \<^verbatim>\<open>while (length)\<close> issues one read request per round. When the device
  never delivers the bytes that are still missing the loop does not end: the result
  \<open>None\<close> stands for a call that does not return.
\<close>

partial_function (option) request_loop :: "u8 \<Rightarrow> ateccx08a \<Rightarrow> (fault + ateccx08a) option" where
  "request_loop len s =
     (if len \<noteq> 0 then
        (let requestAmount = (if len > 32 then 32 else len);
             s1 = s\<lparr>i2cPort := wire_requestFrom (i2caddr s) requestAmount (i2cPort s)\<rparr>
         in case read_loop len s1 of
              Inl e \<Rightarrow> Some (Inl e)
            | Inr (len', s2) \<Rightarrow> request_loop len' s2)
      else Some (Inr s))"

definition receiveResponseData :: "u8 \<Rightarrow> bool \<Rightarrow> ateccx08a \<Rightarrow> (fault + bool \<times> ateccx08a) option" where
  "receiveResponseData len debug s =
     (let s1 = s\<lparr>countGlobal := 0\<rparr>;
          s2 = cleanInputBuffer s1
      in case request_loop len s2 of
           None \<Rightarrow> None
         | Some (Inl e) \<Rightarrow> Some (Inl e)
         | Some (Inr s3) \<Rightarrow> Some (Inr (True, s3)))"

section \<open>Count and checksum validation\<close>

definition checkCount :: "bool \<Rightarrow> ateccx08a \<Rightarrow> fault + bool \<times> ateccx08a" where
  "checkCount debug s =
     (case array_get (inputBuffer s) 0 of
        Inl e \<Rightarrow> Inl e
      | Inr b \<Rightarrow> if b \<noteq> countGlobal s then Inr (False, s) else Inr (True, s))"

text \<open>
  In \<open>checkCrc\<close> the length \<open>countGlobal-2\<close> is converted to the 8-bit parameter of
  the checksum routine, so it wraps below 2; the indices \<open>countGlobal-1\<close> and
  \<open>countGlobal-2\<close> are C \<open>int\<close> values and can be negative. The right operand of
  \<open>||\<close> is only evaluated when the left one is false.
\<close>

definition checkCrc :: "bool \<Rightarrow> ateccx08a \<Rightarrow> fault + bool \<times> ateccx08a" where
  "checkCrc debug s =
     (case atca_calculate_crc (countGlobal s - 2) (inputBuffer s) s of
        Inl e \<Rightarrow> Inl e
      | Inr s1 \<Rightarrow>
         (case array_get (inputBuffer s1) (uint (countGlobal s1) - 1) of
            Inl e \<Rightarrow> Inl e
          | Inr b1 \<Rightarrow>
             if b1 \<noteq> snd (crc s1) then Inr (False, s1)
             else (case array_get (inputBuffer s1) (uint (countGlobal s1) - 2) of
                     Inl e \<Rightarrow> Inl e
                   | Inr b0 \<Rightarrow>
                      if b0 \<noteq> fst (crc s1) then Inr (False, s1) else Inr (True, s1))))"

section \<open>The operations of the driver\<close>

text \<open>Sequencing of steps that may fault or not return.\<close>

definition and_then :: "(fault + 'a) option \<Rightarrow> ('a \<Rightarrow> (fault + 'b) option) \<Rightarrow> (fault + 'b) option" where
  "and_then m f = (case m of None \<Rightarrow> None | Some (Inl e) \<Rightarrow> Some (Inl e) | Some (Inr x) \<Rightarrow> f x)"

definition wakeUp :: "ateccx08a \<Rightarrow> (fault + bool \<times> ateccx08a) option" where
  "wakeUp s =
     (let s1 = s\<lparr>i2cPort := wire_endTransmission (wire_beginTransmission 0x00 (i2cPort s))\<rparr>;
          s2 = s1\<lparr>countGlobal := 0\<rparr>
      in and_then (receiveResponseData 4 False s2) (\<lambda>(r, s3).
         if r = False then Some (Inr (False, s3)) else
         and_then (Some (checkCount False s3)) (\<lambda>(r, s4).
         if r = False then Some (Inr (False, s4)) else
         and_then (Some (checkCrc False s4)) (\<lambda>(r, s5).
         if r = False then Some (Inr (False, s5)) else
         and_then (Some (array_get (inputBuffer s5) 1)) (\<lambda>b.
         if b = 0x11 then Some (Inr (True, s5)) else Some (Inr (False, s5)))))))"


definition idleMode :: "macros \<Rightarrow> ateccx08a \<Rightarrow> ateccx08a" where
  "idleMode h s =
     s\<lparr>i2cPort := wire_endTransmission
          (wire_write [WORD_ADDRESS_VALUE_IDLE h]
            (wire_beginTransmission (i2caddr s) (i2cPort s)))\<rparr>"

text \<open>
  Both commands build the same 7-byte packet; \<open>send_command\<close> is the part of
  \<open>getInfo\<close> and \<open>updateRandom32Bytes\<close> up to the end of the transmission: the checksum
  over \<open>{count, command, param1, param2a, param2b}\<close>, the wake-up whose result is not
  looked at, and the first 8 bytes of \<open>complete_message\<close>.
\<close>

definition send_command :: "macros \<Rightarrow> u8 \<Rightarrow> ateccx08a \<Rightarrow> (fault + ateccx08a) option" where
  "send_command h command s =
     (let count = (0x07 :: u8);
          param1 = (0x00 :: u8);
          param2a = (0x00 :: u8);
          param2b = (0x00 :: u8);
          packet_to_CRC = [count, command, param1, param2a, param2b]
      in and_then (Some (atca_calculate_crc (count - 2) packet_to_CRC s)) (\<lambda>s1.
         let complete_message = [WORD_ADDRESS_VALUE_COMMAND h, count, command, param1,
               param2a, param2b, fst (crc s1), snd (crc s1), 0]
         in and_then (wakeUp s1) (\<lambda>(r, s2).
            Some (Inr (s2\<lparr>i2cPort := wire_endTransmission
                    (wire_write (take 8 complete_message)
                      (wire_beginTransmission (i2caddr s2) (i2cPort s2)))\<rparr>)))))"


text \<open>
  The copy loop of \<open>updateRandom32Bytes\<close>:
  \<^verbatim>\<open>for (int i = 0; i < 32; i++) random32Bytes[i] = inputBuffer[i + 1];\<close>
\<close>

function copy_loop :: "nat \<Rightarrow> ateccx08a \<Rightarrow> fault + ateccx08a" where
  "copy_loop i s =
     (if i < 32 then
        (if i + 1 < length (inputBuffer s) \<and> i < length (random32Bytes s) then
           copy_loop (i + 1) (s\<lparr>random32Bytes := (random32Bytes s)[i := inputBuffer s ! (i + 1)]\<rparr>)
         else Inl OutOfBounds)
      else Inr s)"
  by pat_completeness auto
termination
  by (relation "measure (\<lambda>(i, s). 32 - i)") simp_all

declare copy_loop.simps [simp del]

definition updateRandom32Bytes :: "macros \<Rightarrow> bool \<Rightarrow> ateccx08a \<Rightarrow> (fault + bool \<times> ateccx08a) option" where
  "updateRandom32Bytes h debug s =
     and_then (send_command h (COMMAND_OPCODE_RANDOM h) s) (\<lambda>s1.
     and_then (receiveResponseData 35 debug s1) (\<lambda>(r, s2).
     if r = False then Some (Inr (False, s2)) else
     and_then (Some (checkCount debug (idleMode h s2))) (\<lambda>(r, s3).
     if r = False then Some (Inr (False, s3)) else
     and_then (Some (checkCrc debug s3)) (\<lambda>(r, s4).
     if r = False then Some (Inr (False, s4)) else
     and_then (Some (copy_loop 0 s4)) (\<lambda>s5.
     Some (Inr (True, s5)))))))"

text \<open>
  The accessors. The width of \<open>int\<close> depends on the platform (16 bits on the
  ATmega328, 32 bits on ARM boards), so the result of \<open>getRandomInt\<close> is a word of any
  length; likewise for \<open>long\<close>. The shifts and the bitwise OR act on the word.
\<close>

definition getRandomByte :: "macros \<Rightarrow> bool \<Rightarrow> ateccx08a \<Rightarrow> (fault + u8 \<times> ateccx08a) option" where
  "getRandomByte h debug s =
     (case updateRandom32Bytes h debug s of
        None \<Rightarrow> None
      | Some (Inl e) \<Rightarrow> Some (Inl e)
      | Some (Inr (r, s1)) \<Rightarrow>
          and_then (Some (array_get (random32Bytes s1) 0)) (\<lambda>b0.
          Some (Inr (b0, s1))))"

definition getRandomInt :: "macros \<Rightarrow> bool \<Rightarrow> ateccx08a \<Rightarrow> (fault + 'a::len word \<times> ateccx08a) option" where
  "getRandomInt h debug s =
     (case updateRandom32Bytes h debug s of
        None \<Rightarrow> None
      | Some (Inl e) \<Rightarrow> Some (Inl e)
      | Some (Inr (r, s1)) \<Rightarrow>
          and_then (Some (array_get (random32Bytes s1) 0)) (\<lambda>b0.
          let return_val0 = (ucast b0 :: 'a word);
              return_val1 = push_bit 8 return_val0
          in and_then (Some (array_get (random32Bytes s1) 1)) (\<lambda>b1.
             let return_val2 = return_val1 OR ucast b1
             in Some (Inr (return_val2, s1)))))"

definition getRandomLong :: "macros \<Rightarrow> bool \<Rightarrow> ateccx08a \<Rightarrow> (fault + 'a::len word \<times> ateccx08a) option" where
  "getRandomLong h debug s =
     (case updateRandom32Bytes h debug s of
        None \<Rightarrow> None
      | Some (Inl e) \<Rightarrow> Some (Inl e)
      | Some (Inr (r, s1)) \<Rightarrow>
          and_then (Some (array_get (random32Bytes s1) 0)) (\<lambda>b0.
          let return_val0 = (ucast b0 :: 'a word);
              return_val1 = push_bit 8 return_val0
          in and_then (Some (array_get (random32Bytes s1) 1)) (\<lambda>b1.
             let return_val2 = return_val1 OR ucast b1;
                 return_val3 = push_bit 8 return_val2
             in and_then (Some (array_get (random32Bytes s1) 2)) (\<lambda>b2.
                let return_val4 = return_val3 OR ucast b2;
                    return_val5 = push_bit 8 return_val4
                in and_then (Some (array_get (random32Bytes s1) 3)) (\<lambda>b3.
                   let return_val6 = return_val5 OR ucast b3
                   in Some (Inr (return_val6, s1)))))))"

section \<open>The checksum algorithm as specified\<close>

text \<open>
  The algorithm in the words of the specification: a 16-bit register that starts at 0;
  for each bit of each input byte, least significant bit first, the bit is compared with
  the top bit of the register, the register is shifted left by one, and the polynomial
  0x8005 is XORed in when the two bits differ. The output is the low byte of the final
  register, then its high byte.
\<close>

definition spec_crc_step :: "u16 \<Rightarrow> bool \<Rightarrow> u16" where
  "spec_crc_step reg data_bit =
     (let top_bit = bit reg 15;
          shifted = push_bit 1 reg
      in if data_bit \<noteq> top_bit then shifted XOR 0x8005 else shifted)"

definition bits_lsb_first :: "u8 \<Rightarrow> bool list" where
  "bits_lsb_first b = map (bit b) [0..<8]"

definition spec_crc_register :: "u8 list \<Rightarrow> u16" where
  "spec_crc_register bytes = foldl spec_crc_step 0 (concat (map bits_lsb_first bytes))"

definition low_high :: "u16 \<Rightarrow> u8 \<times> u8" where
  "low_high reg = (ucast reg, ucast (drop_bit 8 reg))"

definition spec_crc :: "u8 list \<Rightarrow> u8 \<times> u8" where
  "spec_crc bytes = low_high (spec_crc_register bytes)"

section \<open>Chunked reception as specified\<close>

text \<open>
  The reception in the words of the specification, as a check on the list of rounds, each
  a pair of the size requested and the bytes the transport made available: while bytes
  remain, a round requests 32 bytes when more than 32 remain and the remainder otherwise,
  gets at most that many from the device, and leaves the rest for the next request; the
  rounds end when nothing remains. \<open>k\<close> is the number of the next read request on the
  bus.
\<close>

fun chunked_reads :: "(nat \<Rightarrow> u8 list) \<Rightarrow> nat \<Rightarrow> nat \<Rightarrow> (nat \<times> u8 list) list \<Rightarrow> bool" where
  "chunked_reads answers k remaining [] = (remaining = 0)"
| "chunked_reads answers k remaining ((amount, bytes) # rounds) =
     (remaining \<noteq> 0 \<and>
      amount = (if remaining > 32 then 32 else remaining) \<and>
      bytes = take amount (answers k) \<and>
      chunked_reads answers (Suc k) (remaining - length bytes) rounds)"

text \<open>
  What a run of the request loop in the given rounds does to the driver object: the
  requests are logged in order, the bytes of the rounds are in the buffer from the
  position of the counter on, in arrival order, the counter has advanced by the
  requested length, and nothing else has changed.
\<close>

definition reception :: "u8 \<Rightarrow> ateccx08a \<Rightarrow> (nat \<times> u8 list) list \<Rightarrow> ateccx08a \<Rightarrow> bool" where
  "reception len s rounds s' \<longleftrightarrow>
     chunked_reads (slave (i2cPort s)) (length (requests (i2cPort s))) (unat len) rounds \<and>
     requests (i2cPort s') =
       requests (i2cPort s) @ map (\<lambda>(amount, bytes). (i2caddr s, of_nat amount)) rounds \<and>
     inputBuffer s' =
       take (unat (countGlobal s)) (inputBuffer s) @ concat (map snd rounds) @
       drop (unat (countGlobal s) + unat len) (inputBuffer s) \<and>
     countGlobal s' = countGlobal s + len \<and>
     (len = 0 \<or> unat (countGlobal s) + unat len \<le> length (inputBuffer s)) \<and>
     slave (i2cPort s') = slave (i2cPort s) \<and>
     sent (i2cPort s') = sent (i2cPort s) \<and>
     i2caddr s' = i2caddr s \<and>
     crc s' = crc s \<and>
     random32Bytes s' = random32Bytes s"

section \<open>Histories of calls\<close>






section \<open>Test fixtures\<close>

text \<open>
  A driver object with an input buffer of the given capacity, all buffers zero, on a bus
  whose device answers the read requests as \<open>answers\<close> says.
\<close>

definition fixture_port :: "(nat \<Rightarrow> u8 list) \<Rightarrow> twowire" where
  "fixture_port answers =
     \<lparr>slave = answers, requests = [], rx = [], tx_addr = 0, tx = [], sent = []\<rparr>"

definition fixture :: "nat \<Rightarrow> (nat \<Rightarrow> u8 list) \<Rightarrow> ateccx08a" where
  "fixture capacity answers =
     \<lparr>i2cPort = fixture_port answers, i2caddr = 0x60,
      inputBuffer = replicate capacity 0, countGlobal = 0, crc = (0, 0),
      random32Bytes = replicate 32 0\<rparr>"

definition silent :: "nat \<Rightarrow> u8 list" where
  "silent n = []"

text \<open>
  A device that answers the read requests of a run with the given replies, one per
  request, and is silent afterwards.
\<close>

definition script :: "u8 list list \<Rightarrow> nat \<Rightarrow> u8 list" where
  "script replies k = (if k < length replies then replies ! k else [])"

definition wake_ack :: "u8 list" where
  "wake_ack = [0x04, 0x11, 0x33, 0x43]"

definition data32 :: "u8 list" where
  "data32 = map of_nat [1..<33]"

definition random_response :: "u8 list" where
  "random_response = 35 # data32 @ [0x5C, 0xEE]"

text \<open>The response to a later fetch, with other data, and the same with a wrong checksum.\<close>

definition fresh32 :: "u8 list" where
  "fresh32 = map of_nat [33..<65]"

definition second_response :: "u8 list" where
  "second_response = 35 # fresh32 @ [0xDC, 0x60]"

definition bad_response :: "u8 list" where
  "bad_response = 35 # fresh32 @ [0x00, 0x00]"

text \<open>Values for the macros of the header, as the data sheet of the device has them.\<close>

definition datasheet_macros :: macros where
  "datasheet_macros =
     \<lparr>WORD_ADDRESS_VALUE_COMMAND = 0x03, WORD_ADDRESS_VALUE_IDLE = 0x02,
      COMMAND_OPCODE_INFO = 0x30, COMMAND_OPCODE_RANDOM = 0x1B\<rparr>"

text \<open>
  Driver objects on a device that answers two fetches in a row: two good responses with
  different data, a good response followed by a bad one, and two bad responses.
\<close>

definition two_fetches :: ateccx08a where
  "two_fetches = fixture 35 (script
     [wake_ack, take 32 random_response, drop 32 random_response,
      wake_ack, take 32 second_response, drop 32 second_response])"



text \<open>A driver object whose input buffer holds exactly the given bytes as the response received.\<close>

definition received :: "u8 list \<Rightarrow> ateccx08a" where
  "received bytes =
     (fixture (length bytes) silent)\<lparr>inputBuffer := bytes, countGlobal := of_nat (length bytes)\<rparr>"

section \<open>The checksum routine computes the specified checksum\<close>

lemma mask_pos: "(0 :: u8) < 2 ^ k \<longleftrightarrow> k < 8"
  by (simp add: word_gt_0 not_le) 

lemma and_mask_bit: "(byte AND 2 ^ k \<noteq> 0) = bit (byte :: u8) k"
  using bit_iff_and_push_bit_not_eq_0 [of byte k] by simp

lemma top_bit_cast: "(ucast (drop_bit 15 (r :: u16)) :: u8) = (if bit r 15 then 1 else 0)"
proof (rule bit_eqI)
  fix n
  have "bit r (15 + n) \<longleftrightarrow> n = 0 \<and> bit r 15"
    using bit_imp_le_length [of r "15 + n"] by (cases "n = 0") auto
  then show "bit (ucast (drop_bit 15 r) :: u8) n = bit (if bit r 15 then 1 else 0 :: u8) n"
    by (auto simp: bit_ucast_iff bit_drop_bit_eq bit_1_iff)
qed

lemma bit_loop_step:
  "k < 8 \<Longrightarrow> crc_bit_loop byte (2 ^ k) r =
     crc_bit_loop byte (2 ^ Suc k) (spec_crc_step r (bit byte k))"
  by (subst crc_bit_loop.simps)
   (simp add: mask_pos and_mask_bit top_bit_cast spec_crc_step_def polynom_def Let_def push_bit_eq_mult mult.commute)

lemma bit_loop_end: "crc_bit_loop byte (2 ^ 8) r = r"
  by (subst crc_bit_loop.simps) simp

lemma bit_loop_from:
  "k \<le> 8 \<Longrightarrow> crc_bit_loop byte (2 ^ k) r = foldl spec_crc_step r (map (bit byte) [k..<8])"
proof (induction "8 - k" arbitrary: k r)
  case 0
  then have "k = 8" by simp
  then show ?case using bit_loop_end [of byte r] by simp
next
  case (Suc d)
  then have k: "k < 8" and d: "d = 8 - Suc k" and le: "Suc k \<le> 8" by simp_all
  show ?case
    using Suc.hyps(1) [OF d le] k by (simp add: bit_loop_step upt_conv_Cons del: power_Suc)
qed

lemma crc_bit_loop_spec:
  "crc_bit_loop byte 0x01 r = foldl spec_crc_step r (bits_lsb_first byte)"
  using bit_loop_from [of 0 byte r] by (simp add: bits_lsb_first_def)

lemma u8_bound: "unat (w :: u8) < 256"
  using unsigned_less [of w, where 'a = nat] by simp

lemma u8_suc: "(counter :: u8) < len \<Longrightarrow> unat (counter + 1) = Suc (unat counter)"
  using u8_bound [of len] by (simp add: unat_word_ariths word_less_nat_alt)

lemma crc_byte_loop_spec:
  "unat len \<le> length data \<Longrightarrow> counter \<le> len \<Longrightarrow>
   crc_byte_loop len data counter r =
     Inr (foldl spec_crc_step r
       (concat (map bits_lsb_first (drop (unat counter) (take (unat len) data)))))"
proof (induction len data counter r rule: crc_byte_loop.induct)
  case (1 len data counter crc_register)
  show ?case
  proof (cases "counter < len")
    case True
    then have lt: "unat counter < unat len"
      by (simp add: word_less_nat_alt)
    have suc: "unat (counter + 1) = Suc (unat counter)"
      using True by (rule u8_suc)
    have le: "counter + 1 \<le> len"
      using lt suc by (simp add: word_le_nat_alt)
    have inb: "unat counter < length data"
      using lt "1.prems"(1) by simp
    have split: "drop (unat counter) (take (unat len) data) =
        data ! unat counter # drop (Suc (unat counter)) (take (unat len) data)"
      using lt inb by (simp add: Cons_nth_drop_Suc [symmetric])
    show ?thesis
      using "1.IH" [OF True inb "1.prems"(1) le] True inb
      by (subst crc_byte_loop.simps) (simp add: split suc crc_bit_loop_spec)
  next
    case False
    with "1.prems"(2) have "counter = len" by simp
    then show ?thesis
      by (subst crc_byte_loop.simps) simp
  qed
qed

lemma low_byte_mask: "(ucast (r AND 0x00FF) :: u8) = ucast (r :: u16)"
proof -
  have "(0x00FF :: u16) = mask 8"
    by (simp add: mask_eq_exp_minus_1)
  then have "r AND 0x00FF = take_bit 8 r"
    by (simp only: take_bit_eq_mask)
  then show ?thesis
    by (simp only:) (rule bit_eqI, auto simp: bit_ucast_iff bit_take_bit_iff)
qed

lemma atca_calculate_crc_spec:
  "unat len \<le> length data \<Longrightarrow>
   atca_calculate_crc len data s = Inr (s\<lparr>crc := spec_crc (take (unat len) data)\<rparr>)"
  using crc_byte_loop_spec [of len data 0 0]
  by (simp add: atca_calculate_crc_def spec_crc_def spec_crc_register_def low_high_def low_byte_mask)


section \<open>A single flipped bit changes the checksum\<close>

lemma step_unfold: "spec_crc_step r d = (if d \<noteq> bit r 15 then 2 * r XOR 0x8005 else 2 * r)"
  by (simp add: spec_crc_step_def Let_def push_bit_eq_mult mult.commute)

lemma step_bit0: "bit (spec_crc_step r d) 0 \<longleftrightarrow> d \<noteq> bit r 15"
  by (simp add: step_unfold bit_0 even_xor_iff)

lemma xor_cancel_right: "(a :: u16) XOR c = b XOR c \<Longrightarrow> a = b"
  by (metis bit.xor_left_self word_bw_comms(3))

lemma double_inj:
  assumes "2 * (r1 :: u16) = 2 * r2" and "bit r1 15 = bit r2 15"
  shows "r1 = r2"
proof (rule bit_eqI)
  fix n
  assume "possible_bit TYPE(u16) n"
  then have n: "n < 16" by (simp add: possible_bit_word)
  show "bit r1 n = bit r2 n"
  proof (cases "n = 15")
    case True
    with assms(2) show ?thesis by simp
  next
    case False
    with n have "Suc n < 16" by simp
    then have "bit (2 * r1) (Suc n) = bit r1 n" "bit (2 * r2) (Suc n) = bit r2 n"
      by (simp_all add: bit_double_Suc_iff possible_bit_word)
    with assms(1) show ?thesis by simp
  qed
qed

lemma step_inj:
  assumes "spec_crc_step r1 d = spec_crc_step r2 d"
  shows "r1 = r2"
proof -
  have top: "bit r1 15 = bit r2 15"
    using step_bit0 [of r1 d] step_bit0 [of r2 d] assms by auto
  have "2 * r1 = 2 * r2"
    using assms top by (auto simp: step_unfold split: if_splits dest: xor_cancel_right)
  then show ?thesis
    using top by (rule double_inj)
qed

lemma step_flip: "spec_crc_step r (\<not> d) \<noteq> spec_crc_step r d"
  using step_bit0 [of r d] step_bit0 [of r "\<not> d"] by auto

lemma fold_inj:
  "foldl spec_crc_step r1 ds = foldl spec_crc_step r2 ds \<Longrightarrow> r1 = r2"
  by (induction ds arbitrary: r1 r2) (auto dest: step_inj)

lemma fold_flip:
  assumes "k < length ds"
  shows "foldl spec_crc_step r (ds[k := \<not> ds ! k]) \<noteq> foldl spec_crc_step r ds"
proof -
  have a: "ds = take k ds @ ds ! k # drop (Suc k) ds"
    using assms by (simp add: id_take_nth_drop [symmetric])
  have b: "ds[k := \<not> ds ! k] = take k ds @ (\<not> ds ! k) # drop (Suc k) ds"
    using assms by (simp add: upd_conv_take_nth_drop)
  show ?thesis
  proof
    assume "foldl spec_crc_step r (ds[k := \<not> ds ! k]) = foldl spec_crc_step r ds"
    then have "foldl spec_crc_step r (take k ds @ (\<not> ds ! k) # drop (Suc k) ds) =
        foldl spec_crc_step r (take k ds @ ds ! k # drop (Suc k) ds)"
      using a b by simp
    then have "spec_crc_step (foldl spec_crc_step r (take k ds)) (\<not> ds ! k) =
        spec_crc_step (foldl spec_crc_step r (take k ds)) (ds ! k)"
      by (simp add: fold_inj)
    then show False
      by (simp add: step_flip)
  qed
qed

lemma bits_flip:
  assumes "j < 8"
  shows "bits_lsb_first (flip_bit j b) = (bits_lsb_first b)[j := \<not> bits_lsb_first b ! j]"
proof (rule nth_equalityI)
  show "length (bits_lsb_first (flip_bit j b)) = length ((bits_lsb_first b)[j := \<not> bits_lsb_first b ! j])"
    by (simp add: bits_lsb_first_def)
next
  fix i
  assume "i < length (bits_lsb_first (flip_bit j b))"
  then have i: "i < 8" by (simp add: bits_lsb_first_def)
  show "bits_lsb_first (flip_bit j b) ! i = (bits_lsb_first b)[j := \<not> bits_lsb_first b ! j] ! i"
    using i assms by (auto simp: bits_lsb_first_def bit_flip_bit_iff nth_list_update)
qed

lemma flip_bit_neq: "j < 8 \<Longrightarrow> flip_bit j (b :: u8) \<noteq> b"
  using bit_flip_bit_iff [of j b j] by (auto simp: possible_bit_word)

lemma byte_flip:
  assumes "j < 8"
  shows "foldl spec_crc_step r (bits_lsb_first (flip_bit j b)) \<noteq>
         foldl spec_crc_step r (bits_lsb_first b)"
  using assms fold_flip [of j "bits_lsb_first b" r]
  by (simp add: bits_flip) (simp add: bits_lsb_first_def)

lemma register_flip:
  assumes "i < length xs" and "j < 8"
  shows "spec_crc_register (xs[i := flip_bit j (xs ! i)]) \<noteq> spec_crc_register xs"
proof
  assume eq: "spec_crc_register (xs[i := flip_bit j (xs ! i)]) = spec_crc_register xs"
  have a: "xs = take i xs @ xs ! i # drop (Suc i) xs"
    using assms(1) by (simp add: id_take_nth_drop [symmetric])
  have b: "xs[i := flip_bit j (xs ! i)] = take i xs @ flip_bit j (xs ! i) # drop (Suc i) xs"
    using assms(1) by (simp add: upd_conv_take_nth_drop)
  define r where "r = foldl spec_crc_step 0 (concat (map bits_lsb_first (take i xs)))"
  have "spec_crc_register (take i xs @ flip_bit j (xs ! i) # drop (Suc i) xs) =
        spec_crc_register (take i xs @ xs ! i # drop (Suc i) xs)"
    using eq a b by simp
  then have "foldl spec_crc_step r (bits_lsb_first (flip_bit j (xs ! i))) =
        foldl spec_crc_step r (bits_lsb_first (xs ! i))"
    by (simp add: spec_crc_register_def r_def fold_inj)
  then show False
    using byte_flip [OF assms(2)] by simp
qed

lemma low_high_inj: "low_high r1 = low_high r2 \<Longrightarrow> r1 = r2"
proof (rule bit_eqI)
  fix n
  assume a: "low_high r1 = low_high r2"
  assume "possible_bit TYPE(u16) n"
  then have n: "n < 16" by (simp add: possible_bit_word)
  from a have lo: "(ucast r1 :: u8) = ucast r2"
    and hi: "(ucast (drop_bit 8 r1) :: u8) = ucast (drop_bit 8 r2)"
    by (simp_all add: low_high_def)
  show "bit r1 n = bit r2 n"
  proof (cases "n < 8")
    case True
    then have "bit (ucast r1 :: u8) n = bit r1 n" "bit (ucast r2 :: u8) n = bit r2 n"
      by (simp_all add: bit_ucast_iff)
    with lo show ?thesis by simp
  next
    case False
    define m where "m = n - 8"
    have m: "n = 8 + m" "m < 8"
      using False n by (simp_all add: m_def)
    then have "bit (ucast (drop_bit 8 r1) :: u8) m = bit r1 n"
        "bit (ucast (drop_bit 8 r2) :: u8) m = bit r2 n"
      by (simp_all add: bit_ucast_iff bit_drop_bit_eq)
    with hi show ?thesis by simp
  qed
qed

lemma spec_crc_flip:
  assumes "i < length xs" and "j < 8"
  shows "spec_crc (xs[i := flip_bit j (xs ! i)]) \<noteq> spec_crc xs"
  using register_flip [OF assms] by (auto simp: spec_crc_def dest: low_high_inj)

section \<open>What the checksum check computes\<close>

lemma atca_calculate_crc_fields:
  "atca_calculate_crc len data s = Inr s1 \<Longrightarrow>
   inputBuffer s1 = inputBuffer s \<and> countGlobal s1 = countGlobal s \<and>
   i2cPort s1 = i2cPort s \<and> random32Bytes s1 = random32Bytes s \<and> i2caddr s1 = i2caddr s"
  by (auto simp: atca_calculate_crc_def split: sum.splits)

lemma checkCrc_result:
  assumes "2 \<le> unat (countGlobal s)" and "unat (countGlobal s) \<le> length (inputBuffer s)"
  shows "checkCrc debug s =
     Inr (inputBuffer s ! (unat (countGlobal s) - 2) =
            fst (spec_crc (take (unat (countGlobal s) - 2) (inputBuffer s))) \<and>
          inputBuffer s ! (unat (countGlobal s) - 1) =
            snd (spec_crc (take (unat (countGlobal s) - 2) (inputBuffer s))),
          s\<lparr>crc := spec_crc (take (unat (countGlobal s) - 2) (inputBuffer s))\<rparr>)"
proof -
  define n where "n = unat (countGlobal s)"
  have "2 \<le> countGlobal s"
    using assms(1) by (simp add: word_le_nat_alt)
  then have sub: "unat (countGlobal s - 2) = n - 2"
    by (simp add: unat_sub n_def)
  have crc: "atca_calculate_crc (countGlobal s - 2) (inputBuffer s) s =
      Inr (s\<lparr>crc := spec_crc (take (n - 2) (inputBuffer s))\<rparr>)"
    using atca_calculate_crc_spec [of "countGlobal s - 2" "inputBuffer s" s] assms(2) sub
    by (simp add: n_def)
  have u: "uint (countGlobal s) = int n"
    by (simp add: n_def)
  have n: "2 \<le> n" "n \<le> length (inputBuffer s)"
    using assms by (simp_all add: n_def)
  have i1: "array_get (inputBuffer s) (uint (countGlobal s) - 1) = Inr (inputBuffer s ! (n - 1))"
    unfolding u using n by (simp add: array_get_def nat_diff_distrib')
  have i2: "array_get (inputBuffer s) (uint (countGlobal s) - 2) = Inr (inputBuffer s ! (n - 2))"
    unfolding u using n by (simp add: array_get_def nat_diff_distrib')
  show ?thesis
    unfolding n_def [symmetric] by (auto simp: checkCrc_def crc i1 i2)
qed

lemma array_get_Inr: "array_get xs i = Inr b \<Longrightarrow> 0 \<le> i \<and> i < int (length xs)"
  by (simp add: array_get_def split: if_splits)

lemma checkCrc_True_bounds:
  assumes "checkCrc debug s = Inr (True, s1)"
  shows "2 \<le> unat (countGlobal s) \<and> unat (countGlobal s) \<le> length (inputBuffer s)"
proof -
  obtain s0 where s0: "atca_calculate_crc (countGlobal s - 2) (inputBuffer s) s = Inr s0"
    using assms by (cases "atca_calculate_crc (countGlobal s - 2) (inputBuffer s) s")
      (simp_all add: checkCrc_def)
  note f = atca_calculate_crc_fields [OF s0]
  obtain b1 where b1: "array_get (inputBuffer s) (uint (countGlobal s) - 1) = Inr b1"
    using assms s0 f
    by (cases "array_get (inputBuffer s) (uint (countGlobal s) - 1)") (simp_all add: checkCrc_def)
  obtain b0 where b0: "array_get (inputBuffer s) (uint (countGlobal s) - 2) = Inr b0"
    using assms s0 f b1
    by (cases "array_get (inputBuffer s) (uint (countGlobal s) - 2)")
      (simp_all add: checkCrc_def split: if_splits)
  define n where "n = unat (countGlobal s)"
  have u: "uint (countGlobal s) = int n"
    by (simp add: n_def)
  from array_get_Inr [OF b1] array_get_Inr [OF b0] have "2 \<le> n \<and> n \<le> length (inputBuffer s)"
    unfolding u by simp
  then show ?thesis
    by (simp add: n_def)
qed

section \<open>The loops of the reception\<close>

lemma clean_loop_result:
  "i \<le> length (inputBuffer s) \<Longrightarrow>
   clean_loop i s =
     s\<lparr>inputBuffer := take i (inputBuffer s) @ replicate (length (inputBuffer s) - i) 0\<rparr>"
proof (induction i s rule: clean_loop.induct)
  case (1 i s)
  show ?case
  proof (cases "i < length (inputBuffer s)")
    case True
    have "take (Suc i) ((inputBuffer s)[i := 0]) = take i (inputBuffer s) @ [0]"
      using True by (simp add: take_Suc_conv_app_nth)
    moreover have "length (inputBuffer s) - i = Suc (length (inputBuffer s) - Suc i)"
      using True by simp
    ultimately show ?thesis
      using "1.IH" [OF True] True
      by (subst clean_loop.simps) (simp add: replicate_app_Cons_same)
  next
    case False
    with "1.prems" show ?thesis
      by (subst clean_loop.simps) simp
  qed
qed

lemma cleanInputBuffer_result:
  "cleanInputBuffer s = s\<lparr>inputBuffer := replicate (length (inputBuffer s)) 0\<rparr>"
  by (simp add: cleanInputBuffer_def clean_loop_result)

lemma read_loop_result:
  assumes "unat (countGlobal s) + length (rx (i2cPort s)) < 256"
  shows "read_loop len s =
    (if rx (i2cPort s) = [] \<or>
        unat (countGlobal s) + length (rx (i2cPort s)) \<le> length (inputBuffer s) then
       Inr (len - of_nat (length (rx (i2cPort s))),
            s\<lparr>i2cPort := (i2cPort s)\<lparr>rx := []\<rparr>,
              inputBuffer := take (unat (countGlobal s)) (inputBuffer s) @ rx (i2cPort s) @
                drop (unat (countGlobal s) + length (rx (i2cPort s))) (inputBuffer s),
              countGlobal := countGlobal s + of_nat (length (rx (i2cPort s)))\<rparr>)
     else Inl OutOfBounds)"
  using assms
proof (induction "rx (i2cPort s)" arbitrary: s len)
  case Nil
  then show ?case
    by (subst read_loop.simps) (simp add: wire_available_def)
next
  case (Cons b bs)
  define c where "c = unat (countGlobal s)"
  define s1 where "s1 = s\<lparr>i2cPort := (i2cPort s)\<lparr>rx := bs\<rparr>,
      inputBuffer := (inputBuffer s)[c := b], countGlobal := countGlobal s + 1\<rparr>"
  have rx: "rx (i2cPort s) = b # bs"
    using Cons.hyps(2) by simp
  have c1: "unat (countGlobal s + 1) = Suc c"
    using Cons.prems rx by (simp add: c_def unat_word_ariths)
  have step: "read_loop len s =
      (if c < length (inputBuffer s) then read_loop (len - 1) s1 else Inl OutOfBounds)"
    by (subst read_loop.simps) (simp add: wire_available_def wire_read_def rx s1_def c_def)
  show ?case
  proof (cases "c < length (inputBuffer s)")
    case False
    then show ?thesis
      using step rx by (simp add: c_def)
  next
    case True
    have bs: "bs = rx (i2cPort s1)"
      by (simp add: s1_def)
    have pre: "unat (countGlobal s1) + length (rx (i2cPort s1)) < 256"
      using Cons.prems rx c1 by (simp add: s1_def c_def)
    have ih: "read_loop (len - 1) s1 =
      (if rx (i2cPort s1) = [] \<or>
          unat (countGlobal s1) + length (rx (i2cPort s1)) \<le> length (inputBuffer s1) then
         Inr (len - 1 - of_nat (length (rx (i2cPort s1))),
              s1\<lparr>i2cPort := (i2cPort s1)\<lparr>rx := []\<rparr>,
                inputBuffer := take (unat (countGlobal s1)) (inputBuffer s1) @ rx (i2cPort s1) @
                  drop (unat (countGlobal s1) + length (rx (i2cPort s1))) (inputBuffer s1),
                countGlobal := countGlobal s1 + of_nat (length (rx (i2cPort s1)))\<rparr>)
       else Inl OutOfBounds)"
      using bs pre by (rule Cons.hyps(1))
    have f: "rx (i2cPort s1) = bs" "unat (countGlobal s1) = Suc c"
        "inputBuffer s1 = (inputBuffer s)[c := b]"
      by (simp_all add: s1_def c1)
    have tk: "take (Suc c) ((inputBuffer s)[c := b]) = take c (inputBuffer s) @ [b]"
      using True by (simp add: take_Suc_conv_app_nth)
    have cond: "(bs = [] \<or> Suc c + length bs \<le> length ((inputBuffer s)[c := b])) \<longleftrightarrow>
        (c + length (b # bs) \<le> length (inputBuffer s))"
      using True by auto
    have st: "s1\<lparr>i2cPort := (i2cPort s1)\<lparr>rx := []\<rparr>,
          inputBuffer := take (Suc c) ((inputBuffer s)[c := b]) @ bs @
            drop (Suc c + length bs) ((inputBuffer s)[c := b]),
          countGlobal := countGlobal s1 + of_nat (length bs)\<rparr> =
        s\<lparr>i2cPort := (i2cPort s)\<lparr>rx := []\<rparr>,
          inputBuffer := take c (inputBuffer s) @ (b # bs) @
            drop (c + length (b # bs)) (inputBuffer s),
          countGlobal := countGlobal s + of_nat (length (b # bs))\<rparr>"
      by (simp add: s1_def tk)
    have ln: "len - 1 - of_nat (length bs) = len - of_nat (length (b # bs))"
      by simp
    have "read_loop len s = read_loop (len - 1) s1"
      using step True by simp
    also have "\<dots> = (if c + length (b # bs) \<le> length (inputBuffer s) then
         Inr (len - of_nat (length (b # bs)),
              s\<lparr>i2cPort := (i2cPort s)\<lparr>rx := []\<rparr>,
                inputBuffer := take c (inputBuffer s) @ (b # bs) @
                  drop (c + length (b # bs)) (inputBuffer s),
                countGlobal := countGlobal s + of_nat (length (b # bs))\<rparr>)
       else Inl OutOfBounds)"
      unfolding ih f cond st ln ..
    finally show ?thesis
      unfolding rx c_def by simp
  qed
qed

lemma u8_add_nat: "unat (w :: u8) + n < 256 \<Longrightarrow> unat (w + of_nat n) = unat w + n"
  by (simp add: unat_word_ariths unat_of_nat)

lemma u8_sub_nat: "n \<le> unat (w :: u8) \<Longrightarrow> unat (w - of_nat n) = unat w - n"
proof -
  assume n: "n \<le> unat w"
  then have "n < 256"
    using u8_bound [of w] by simp
  then have "unat (of_nat n :: u8) = n"
    by (simp add: unat_of_nat)
  moreover from this n have "(of_nat n :: u8) \<le> w"
    by (simp add: word_le_nat_alt)
  ultimately show ?thesis
    by (simp add: unat_sub)
qed

lemma requestAmount_value:
  "unat (if (32 :: u8) < len then 32 else len) = (if 32 < unat len then 32 else unat len)"
  by (simp add: word_less_nat_alt)

lemma read_after_request:
  fixes len :: u8 and s :: ateccx08a
  defines "amount \<equiv> (if 32 < len then 32 else len)"
  defines "bytes \<equiv> take (unat amount) (slave (i2cPort s) (length (requests (i2cPort s))))"
  defines "s2 \<equiv> s\<lparr>i2cPort := (i2cPort s)\<lparr>rx := [],
        requests := requests (i2cPort s) @ [(i2caddr s, amount)]\<rparr>,
      inputBuffer := take (unat (countGlobal s)) (inputBuffer s) @ bytes @
        drop (unat (countGlobal s) + length bytes) (inputBuffer s),
      countGlobal := countGlobal s + of_nat (length bytes)\<rparr>"
  assumes "unat (countGlobal s) + unat len < 256"
  shows "read_loop len (s\<lparr>i2cPort := wire_requestFrom (i2caddr s) amount (i2cPort s)\<rparr>) =
    (if bytes = [] \<or> unat (countGlobal s) + length bytes \<le> length (inputBuffer s)
     then Inr (len - of_nat (length bytes), s2) else Inl OutOfBounds)"
proof -
  define s1 where "s1 = s\<lparr>i2cPort := wire_requestFrom (i2caddr s) amount (i2cPort s)\<rparr>"
  have f: "rx (i2cPort s1) = bytes" "countGlobal s1 = countGlobal s"
      "inputBuffer s1 = inputBuffer s"
    by (simp_all add: s1_def wire_requestFrom_def bytes_def)
  have "unat amount \<le> unat len"
    unfolding amount_def requestAmount_value by simp
  then have "length bytes \<le> unat len"
    by (simp add: bytes_def)
  then have pre: "unat (countGlobal s1) + length (rx (i2cPort s1)) < 256"
    using assms(4) by (simp add: f)
  have st: "s1\<lparr>i2cPort := (i2cPort s1)\<lparr>rx := []\<rparr>,
        inputBuffer := take (unat (countGlobal s)) (inputBuffer s) @ bytes @
          drop (unat (countGlobal s) + length bytes) (inputBuffer s),
        countGlobal := countGlobal s + of_nat (length bytes)\<rparr> = s2"
    by (simp add: s1_def s2_def wire_requestFrom_def)
  show ?thesis
    unfolding s1_def [symmetric] read_loop_result [OF pre] f st ..
qed

lemma request_loop_round:
  fixes len :: u8 and s :: ateccx08a
  defines "amount \<equiv> (if 32 < len then 32 else len)"
  defines "bytes \<equiv> take (unat amount) (slave (i2cPort s) (length (requests (i2cPort s))))"
  defines "s2 \<equiv> s\<lparr>i2cPort := (i2cPort s)\<lparr>rx := [],
        requests := requests (i2cPort s) @ [(i2caddr s, amount)]\<rparr>,
      inputBuffer := take (unat (countGlobal s)) (inputBuffer s) @ bytes @
        drop (unat (countGlobal s) + length bytes) (inputBuffer s),
      countGlobal := countGlobal s + of_nat (length bytes)\<rparr>"
  assumes "len \<noteq> 0" and "unat (countGlobal s) + unat len < 256"
  shows "request_loop len s =
    (if bytes = [] \<or> unat (countGlobal s) + length bytes \<le> length (inputBuffer s)
     then request_loop (len - of_nat (length bytes)) s2
     else Some (Inl OutOfBounds))"
  using assms(4) read_after_request [OF assms(5)]
  by (subst request_loop.simps)
    (simp add: Let_def amount_def [symmetric] bytes_def [symmetric] s2_def [symmetric])

lemma reception_step:
  fixes len :: u8 and s :: ateccx08a
  defines "amount \<equiv> (if 32 < len then 32 else len)"
  defines "bytes \<equiv> take (unat amount) (slave (i2cPort s) (length (requests (i2cPort s))))"
  defines "s2 \<equiv> s\<lparr>i2cPort := (i2cPort s)\<lparr>rx := [],
        requests := requests (i2cPort s) @ [(i2caddr s, amount)]\<rparr>,
      inputBuffer := take (unat (countGlobal s)) (inputBuffer s) @ bytes @
        drop (unat (countGlobal s) + length bytes) (inputBuffer s),
      countGlobal := countGlobal s + of_nat (length bytes)\<rparr>"
  assumes len: "len \<noteq> 0" and small: "unat (countGlobal s) + unat len < 256"
    and fits: "bytes = [] \<or> unat (countGlobal s) + length bytes \<le> length (inputBuffer s)"
    and rest: "reception (len - of_nat (length bytes)) s2 rounds s'"
  shows "reception len s ((unat amount, bytes) # rounds) s'"
proof -
  define c where "c = unat (countGlobal s)"
  define buf where "buf = inputBuffer s"
  define n where "n = length bytes"
  have am: "unat amount = (if 32 < unat len then 32 else unat len)"
    unfolding amount_def by (rule requestAmount_value)
  have n_le: "n \<le> unat len"
    using am by (auto simp: bytes_def n_def min_def)
  have len': "unat (len - of_nat n) = unat len - n"
    using n_le by (rule u8_sub_nat)
  have c2: "unat (countGlobal s + of_nat n) = c + n"
    using small n_le by (simp add: u8_add_nat c_def)
  have pos: "unat len \<noteq> 0"
    using len by (simp add: unat_eq_0)
  have buf2: "length (take c buf @ bytes @ drop (c + n) buf) = length buf"
    using fits by (auto simp: n_def c_def buf_def)
  have tk: "take (c + n) (take c buf @ bytes @ drop (c + n) buf) = take c buf @ bytes"
    using fits by (auto simp: n_def c_def buf_def)
  have dr: "drop (c + n + (unat len - n)) (take c buf @ bytes @ drop (c + n) buf) =
      drop (c + unat len) buf"
  proof (cases "bytes = []")
    case True
    then show ?thesis
      by (simp add: n_def)
  next
    case False
    with fits have "c + n \<le> length buf"
      by (simp add: n_def c_def buf_def)
    then show ?thesis
      using n_le by (simp add: n_def ac_simps)
  qed
  have f2: "slave (i2cPort s2) = slave (i2cPort s)" "sent (i2cPort s2) = sent (i2cPort s)"
      "i2caddr s2 = i2caddr s" "crc s2 = crc s" "random32Bytes s2 = random32Bytes s"
      "requests (i2cPort s2) = requests (i2cPort s) @ [(i2caddr s, amount)]"
      "inputBuffer s2 = take c buf @ bytes @ drop (c + n) buf"
      "countGlobal s2 = countGlobal s + of_nat n"
    by (simp_all add: s2_def c_def buf_def n_def)
  note r = rest [unfolded reception_def n_def [symmetric] f2 len' c2 tk dr buf2]
  have "len - of_nat n = 0 \<Longrightarrow> n = unat len"
    using len' n_le by simp
  then have bound: "len = 0 \<or> c + unat len \<le> length buf"
    using r fits pos n_le by (auto simp: n_def c_def buf_def)
  have b: "bytes = take (unat amount) (slave (i2cPort s) (length (requests (i2cPort s))))"
    by (simp add: bytes_def)
  have r1: "chunked_reads (slave (i2cPort s)) (Suc (length (requests (i2cPort s))))
      (unat len - length bytes) rounds"
    using r by (simp add: n_def)
  have "unat len \<noteq> 0 \<and> unat amount = (if 32 < unat len then 32 else unat len) \<and>
      bytes = take (unat amount) (slave (i2cPort s) (length (requests (i2cPort s)))) \<and>
      chunked_reads (slave (i2cPort s)) (Suc (length (requests (i2cPort s))))
        (unat len - length bytes) rounds"
    using pos am b r1 by blast
  then have ch: "chunked_reads (slave (i2cPort s)) (length (requests (i2cPort s))) (unat len)
      ((unat amount, bytes) # rounds)"
    unfolding chunked_reads.simps .
  have rq: "requests (i2cPort s') = requests (i2cPort s) @
      map (\<lambda>(amount, bytes). (i2caddr s, of_nat amount)) ((unat amount, bytes) # rounds)"
    using r by simp
  have ib: "inputBuffer s' = take c buf @ concat (map snd ((unat amount, bytes) # rounds)) @
      drop (c + unat len) buf"
    using r by simp
  have cg: "countGlobal s' = countGlobal s + len"
    using r by simp
  have fr: "slave (i2cPort s') = slave (i2cPort s)" "sent (i2cPort s') = sent (i2cPort s)"
      "i2caddr s' = i2caddr s" "crc s' = crc s" "random32Bytes s' = random32Bytes s"
    using r by simp_all
  show ?thesis
    unfolding reception_def c_def [symmetric] buf_def [symmetric]
    using ch rq ib cg bound fr by blast
qed

lemma reception_nothing: "reception 0 s [] s"
  by (simp add: reception_def)

lemma request_loop_reception:
  assumes "request_loop len s = Some y"
  shows "\<forall>s'. y = Inr s' \<longrightarrow> unat (countGlobal s) + unat len < 256 \<longrightarrow>
    (\<exists>rounds. reception len s rounds s')"
proof (rule request_loop.raw_induct [OF _ assms], goal_cases)
  case (1 f len s y)
  note IH = 1(1) and body0 = 1(2)
  show ?case
  proof (intro allI impI)
    fix s'
    assume y: "y = Inr s'" and small: "unat (countGlobal s) + unat len < 256"
    show "\<exists>rounds. reception len s rounds s'"
    proof (cases "len = 0")
      case True
      with body0 y have "s' = s" by simp
      with True show ?thesis
        using reception_nothing by blast
    next
      case False
      define amount where "amount = (if 32 < len then 32 else len)"
      define bytes where "bytes = take (unat amount) (slave (i2cPort s) (length (requests (i2cPort s))))"
      define s2 where "s2 = s\<lparr>i2cPort := (i2cPort s)\<lparr>rx := [],
          requests := requests (i2cPort s) @ [(i2caddr s, amount)]\<rparr>,
        inputBuffer := take (unat (countGlobal s)) (inputBuffer s) @ bytes @
          drop (unat (countGlobal s) + length bytes) (inputBuffer s),
        countGlobal := countGlobal s + of_nat (length bytes)\<rparr>"
      note rd = read_after_request [OF small, folded amount_def, folded bytes_def, folded s2_def]
      have body: "(case read_loop len (s\<lparr>i2cPort := wire_requestFrom (i2caddr s) amount (i2cPort s)\<rparr>) of
            Inl e \<Rightarrow> Some (Inl e) | Inr (len', s2) \<Rightarrow> f len' s2) = Some (Inr s')"
        using body0 False y by (simp add: Let_def amount_def)
      have fits: "bytes = [] \<or> unat (countGlobal s) + length bytes \<le> length (inputBuffer s)"
        using body unfolding rd by (auto split: if_splits)
      then have next_call: "f (len - of_nat (length bytes)) s2 = Some (Inr s')"
        using body unfolding rd by simp
      have am: "unat amount \<le> unat len"
        unfolding amount_def requestAmount_value by simp
      then have n_le: "length bytes \<le> unat len"
        by (simp add: bytes_def)
      have "unat (countGlobal s2) + unat (len - of_nat (length bytes)) < 256"
        using small n_le by (simp add: s2_def u8_add_nat u8_sub_nat)
      with IH [OF next_call] obtain rounds
        where "reception (len - of_nat (length bytes)) s2 rounds s'"
        by blast
      then have "reception len s ((unat amount, bytes) # rounds) s'"
        unfolding s2_def bytes_def amount_def
        using False small fits [unfolded bytes_def amount_def] by (rule reception_step [rotated 3])
      then show ?thesis ..
    qed
  qed
qed

lemma chunked_reads_bounds:
  "chunked_reads answers k remaining rounds \<Longrightarrow>
   \<forall>(amount, bytes) \<in> set rounds. 0 < amount \<and> amount \<le> 32 \<and> length bytes \<le> amount"
proof (induction rounds arbitrary: k remaining)
  case Nil
  then show ?case by simp
next
  case (Cons r rounds)
  obtain amount bytes where r: "r = (amount, bytes)"
    by (cases r)
  from Cons.prems r have head: "0 < amount \<and> amount \<le> 32 \<and> length bytes \<le> amount"
    and rest: "chunked_reads answers (Suc k) (remaining - length bytes) rounds"
    by (auto split: if_splits)
  from Cons.IH [OF rest] head r show ?case
    by simp
qed

lemma chunked_reads_total:
  "chunked_reads answers k remaining rounds \<Longrightarrow> length (concat (map snd rounds)) = remaining"
proof (induction rounds arbitrary: k remaining)
  case Nil
  then show ?case by simp
next
  case (Cons r rounds)
  obtain amount bytes where r: "r = (amount, bytes)"
    by (cases r)
  from Cons.prems r have "length bytes \<le> remaining"
    and "chunked_reads answers (Suc k) (remaining - length bytes) rounds"
    by (auto split: if_splits)
  with Cons.IH [of "Suc k" "remaining - length bytes"] r show ?case
    by simp
qed

lemma chunked_reads_two:
  assumes "chunked_reads answers k remaining rounds" and "32 < remaining"
  shows "2 \<le> length rounds"
proof (cases rounds)
  case Nil
  with assms show ?thesis by simp
next
  case (Cons r rest)
  obtain amount bytes where r: "r = (amount, bytes)"
    by (cases r)
  from assms Cons r have "length bytes \<le> 32"
    and "chunked_reads answers (Suc k) (remaining - length bytes) rest"
    by auto
  with assms(2) have "rest \<noteq> []"
    by (cases rest) auto
  with Cons show ?thesis
    by (cases rest) auto
qed

lemma request_loop_returns:
  "chunked_reads (slave (i2cPort s)) (length (requests (i2cPort s))) (unat len) rounds \<Longrightarrow>
   unat (countGlobal s) + unat len \<le> length (inputBuffer s) \<Longrightarrow>
   unat (countGlobal s) + unat len < 256 \<Longrightarrow>
   \<exists>s'. request_loop len s = Some (Inr s')"
proof (induction rounds arbitrary: len s)
  case Nil
  then have "len = 0"
    by (simp add: unat_eq_0)
  then show ?case
    by (subst request_loop.simps) simp
next
  case (Cons r rounds)
  define amount where "amount = (if 32 < len then 32 else len)"
  define bytes where "bytes = take (unat amount) (slave (i2cPort s) (length (requests (i2cPort s))))"
  define s2 where "s2 = s\<lparr>i2cPort := (i2cPort s)\<lparr>rx := [],
      requests := requests (i2cPort s) @ [(i2caddr s, amount)]\<rparr>,
    inputBuffer := take (unat (countGlobal s)) (inputBuffer s) @ bytes @
      drop (unat (countGlobal s) + length bytes) (inputBuffer s),
    countGlobal := countGlobal s + of_nat (length bytes)\<rparr>"
  have am: "unat amount = (if 32 < unat len then 32 else unat len)"
    unfolding amount_def by (rule requestAmount_value)
  then have n_le: "length bytes \<le> unat len"
    by (auto simp: bytes_def min_def)
  obtain a b where r: "r = (a, b)"
    by (cases r)
  from Cons.prems(1) r am have len: "len \<noteq> 0" and b: "b = bytes"
    and rest: "chunked_reads (slave (i2cPort s)) (Suc (length (requests (i2cPort s))))
      (unat len - length bytes) rounds"
    by (auto simp: bytes_def)
  have fits: "unat (countGlobal s) + length bytes \<le> length (inputBuffer s)"
    using Cons.prems(2) n_le by simp
  have round: "request_loop len s = request_loop (len - of_nat (length bytes)) s2"
    using request_loop_round [OF len Cons.prems(3)] fits
    by (simp add: amount_def bytes_def s2_def)
  have f2: "slave (i2cPort s2) = slave (i2cPort s)"
      "length (requests (i2cPort s2)) = Suc (length (requests (i2cPort s)))"
      "unat (len - of_nat (length bytes)) = unat len - length bytes"
      "unat (countGlobal s2) = unat (countGlobal s) + length bytes"
      "length (inputBuffer s2) = length (inputBuffer s)"
    using n_le Cons.prems(3) fits by (simp_all add: s2_def u8_sub_nat u8_add_nat)
  have "\<exists>s'. request_loop (len - of_nat (length bytes)) s2 = Some (Inr s')"
    using rest Cons.prems(2,3) n_le by (intro Cons.IH) (simp_all add: f2)
  then show ?case
    by (simp add: round)
qed

lemma receiveResponseData_Some:
  assumes "receiveResponseData len debug s = Some (Inr (r, s'))"
  shows "r = True \<and>
    (\<exists>rounds. reception len
       (s\<lparr>countGlobal := 0, inputBuffer := replicate (length (inputBuffer s)) 0\<rparr>) rounds s')"
proof -
  define s0 where "s0 = s\<lparr>countGlobal := 0, inputBuffer := replicate (length (inputBuffer s)) 0\<rparr>"
  have s0: "cleanInputBuffer (s\<lparr>countGlobal := 0\<rparr>) = s0"
    by (simp add: cleanInputBuffer_result s0_def)
  have loop: "request_loop len s0 = Some (Inr s')" and r: "r = True"
    using assms unfolding receiveResponseData_def Let_def s0
    by (auto split: option.splits sum.splits)
  have "unat (countGlobal s0) + unat len < 256"
    using u8_bound [of len] by (simp add: s0_def)
  with request_loop_reception [OF loop] have "\<exists>rounds. reception len s0 rounds s'"
    by blast
  with r show ?thesis
    by (simp add: s0_def)
qed

lemma receiveResponseData_returns:
  assumes "chunked_reads (slave (i2cPort s)) (length (requests (i2cPort s))) (unat len) rounds"
    and "unat len \<le> length (inputBuffer s)"
  shows "\<exists>s'. receiveResponseData len debug s = Some (Inr (True, s'))"
proof -
  define s0 where "s0 = s\<lparr>countGlobal := 0, inputBuffer := replicate (length (inputBuffer s)) 0\<rparr>"
  have s0: "cleanInputBuffer (s\<lparr>countGlobal := 0\<rparr>) = s0"
    by (simp add: cleanInputBuffer_result s0_def)
  have "\<exists>s'. request_loop len s0 = Some (Inr s')"
    using assms u8_bound [of len] by (intro request_loop_returns [of _ _ rounds]) (simp_all add: s0_def)
  then show ?thesis
    unfolding receiveResponseData_def Let_def s0 by auto
qed

section \<open>The claims about the checksum\<close>

text \<open>
  Claim C1. \<open>atca_calculate_crc\<close> implements the specified algorithm: called with a
  length that lies within the data array, it stores in \<open>crc[0]\<close>, \<open>crc[1]\<close> the low byte
  and the high byte of the register that the specified bit-serial algorithm (register 0
  at the start, bits taken least significant first, polynomial 0x8005) reaches on the
  first \<open>length\<close> bytes of the data, and changes nothing else.
\<close>

theorem atca_calculate_crc_implements_spec:
  assumes "unat len \<le> length data"
  shows "atca_calculate_crc len data s = Inr (s\<lparr>crc := spec_crc (take (unat len) data)\<rparr>)"
  using assms by (rule atca_calculate_crc_spec)

theorem atca_calculate_crc_implements_spec_witness:
  "unat (5 :: u8) \<le> length [0x07, 0x30, 0x00, 0x00, 0x00 :: u8] \<and>
   atca_calculate_crc 5 [0x07, 0x30, 0x00, 0x00, 0x00] (fixture 8 silent) =
     Inr ((fixture 8 silent)\<lparr>crc := (0x03, 0x5D)\<rparr>)"
proof -
  have vector: "spec_crc [0x07, 0x30, 0x00, 0x00, 0x00] = (0x03, 0x5D)"
    by code_simp
  have len: "unat (5 :: u8) \<le> length [0x07, 0x30, 0x00, 0x00, 0x00 :: u8]"
    by simp
  show ?thesis
    using atca_calculate_crc_implements_spec [OF len, of "fixture 8 silent"] len vector
    by simp
qed

lemma wake_vector: "spec_crc [0x04, 0x11] = (0x33, 0x43)"
  by code_simp

text \<open>
  Claim C2. Round trip: when the input buffer starts with a byte sequence followed by
  the two checksum bytes that \<open>atca_calculate_crc\<close> computes over that sequence, and the
  byte counter equals the length of the sequence plus two, \<open>checkCrc\<close> returns true.
\<close>

theorem checkCrc_accepts_appended_checksum:
  assumes "atca_calculate_crc (of_nat (length msg)) msg s0 = Inr s1"
    and "inputBuffer s = msg @ [fst (crc s1), snd (crc s1)] @ rest"
    and "unat (countGlobal s) = length msg + 2"
  shows "\<exists>s'. checkCrc debug s = Inr (True, s')"
proof -
  have "length msg + 2 < 256"
    using u8_bound [of "countGlobal s"] assms(3) by simp
  then have len: "unat (of_nat (length msg) :: u8) = length msg"
    by (simp add: unat_of_nat)
  then have "crc s1 = spec_crc msg"
    using atca_calculate_crc_spec [of "of_nat (length msg)" msg s0] assms(1) by auto
  then show ?thesis
    using checkCrc_result [of s debug] assms(2,3) by (simp add: nth_append)
qed

theorem checkCrc_accepts_appended_checksum_witness:
  "atca_calculate_crc (of_nat (length [0x04, 0x11 :: u8])) [0x04, 0x11] (fixture 4 silent) =
     Inr ((fixture 4 silent)\<lparr>crc := (0x33, 0x43)\<rparr>) \<and>
   inputBuffer (received [0x04, 0x11, 0x33, 0x43]) = [0x04, 0x11] @ [0x33, 0x43] @ [] \<and>
   unat (countGlobal (received [0x04, 0x11, 0x33, 0x43])) = length [0x04, 0x11 :: u8] + 2 \<and>
   (\<exists>s'. checkCrc False (received [0x04, 0x11, 0x33, 0x43]) = Inr (True, s'))"
proof -
  have a: "atca_calculate_crc (of_nat (length [0x04, 0x11 :: u8])) [0x04, 0x11] (fixture 4 silent) =
     Inr ((fixture 4 silent)\<lparr>crc := (0x33, 0x43)\<rparr>)"
    using atca_calculate_crc_spec [of 2 "[0x04, 0x11]" "fixture 4 silent"]
    by (simp add: wake_vector)
  have b: "inputBuffer (received [0x04, 0x11, 0x33, 0x43]) =
      [0x04, 0x11] @ [fst (crc ((fixture 4 silent)\<lparr>crc := (0x33, 0x43)\<rparr>)),
        snd (crc ((fixture 4 silent)\<lparr>crc := (0x33, 0x43)\<rparr>))] @ []"
    by (simp add: received_def)
  have c: "unat (countGlobal (received [0x04, 0x11, 0x33, 0x43])) = length [0x04, 0x11 :: u8] + 2"
    by (simp add: received_def)
  show ?thesis
    using checkCrc_accepts_appended_checksum [OF a b c, of False] a b c by simp
qed

text \<open>
  Claim C3. Single-bit error detection: when a received response passes \<open>checkCrc\<close>,
  the response with one bit flipped, at any bit position \<open>j\<close> of any of its bytes \<open>i\<close>
  (the trailing checksum bytes included, nothing recomputed), makes \<open>checkCrc\<close> return
  false.
\<close>

theorem checkCrc_rejects_single_bit_flip:
  assumes "checkCrc debug s = Inr (True, s1)"
    and "i < unat (countGlobal s)" and "j < 8"
  shows "\<exists>s2. checkCrc debug (s\<lparr>inputBuffer := (inputBuffer s)[i := flip_bit j (inputBuffer s ! i)]\<rparr>) =
           Inr (False, s2)"
proof -
  define n where "n = unat (countGlobal s)"
  define buf where "buf = inputBuffer s"
  define buf' where "buf' = buf[i := flip_bit j (buf ! i)]"
  define s' where "s' = s\<lparr>inputBuffer := buf'\<rparr>"
  have n: "2 \<le> n" "n \<le> length buf"
    using checkCrc_True_bounds [OF assms(1)] by (simp_all add: n_def buf_def)
  have i: "i < n" "i < length buf"
    using assms(2) n by (simp_all add: n_def)
  have ok: "buf ! (n - 2) = fst (spec_crc (take (n - 2) buf))"
       "buf ! (n - 1) = snd (spec_crc (take (n - 2) buf))"
    using checkCrc_result [of s debug] n assms(1) by (simp_all add: n_def buf_def)
  have res: "checkCrc debug s' =
      Inr (buf' ! (n - 2) = fst (spec_crc (take (n - 2) buf')) \<and>
           buf' ! (n - 1) = snd (spec_crc (take (n - 2) buf')),
           s'\<lparr>crc := spec_crc (take (n - 2) buf')\<rparr>)"
    using checkCrc_result [of s' debug] n by (simp add: s'_def n_def buf'_def buf_def)
  have "\<not> (buf' ! (n - 2) = fst (spec_crc (take (n - 2) buf')) \<and>
           buf' ! (n - 1) = snd (spec_crc (take (n - 2) buf')))"
  proof (cases "i < n - 2")
    case True
    have "take (n - 2) buf' = (take (n - 2) buf)[i := flip_bit j (take (n - 2) buf ! i)]"
      using True by (simp add: buf'_def take_update_swap)
    moreover have "i < length (take (n - 2) buf)"
      using True n by simp
    ultimately have "spec_crc (take (n - 2) buf') \<noteq> spec_crc (take (n - 2) buf)"
      using spec_crc_flip [OF _ assms(3), of i "take (n - 2) buf"] by simp
    moreover have "buf' ! (n - 2) = buf ! (n - 2)" "buf' ! (n - 1) = buf ! (n - 1)"
      using True by (simp_all add: buf'_def)
    ultimately show ?thesis
      using ok by (auto simp: prod_eq_iff)
  next
    case False
    then have same: "take (n - 2) buf' = take (n - 2) buf"
      by (simp add: buf'_def)
    from False i consider "i = n - 2" | "i = n - 1"
      by linarith
    then show ?thesis
    proof cases
      case 1
      then have "buf' ! (n - 2) = flip_bit j (buf ! (n - 2))"
        using i by (simp add: buf'_def)
      then show ?thesis
        using ok flip_bit_neq [OF assms(3), of "buf ! (n - 2)"] same by simp
    next
      case 2
      then have "buf' ! (n - 1) = flip_bit j (buf ! (n - 1))"
        using i by (simp add: buf'_def)
      then show ?thesis
        using ok flip_bit_neq [OF assms(3), of "buf ! (n - 1)"] same by simp
    qed
  qed
  then show ?thesis
    using res by (simp add: s'_def buf'_def buf_def)
qed

theorem checkCrc_rejects_single_bit_flip_witness:
  "checkCrc False (received [0x04, 0x11, 0x33, 0x43]) =
     Inr (True, (received [0x04, 0x11, 0x33, 0x43])\<lparr>crc := (0x33, 0x43)\<rparr>) \<and>
   1 < unat (countGlobal (received [0x04, 0x11, 0x33, 0x43])) \<and> (0 :: nat) < 8 \<and>
   (\<exists>s2. checkCrc False ((received [0x04, 0x11, 0x33, 0x43])\<lparr>inputBuffer := [0x04, 0x10, 0x33, 0x43]\<rparr>) =
      Inr (False, s2))"
proof -
  have a: "checkCrc False (received [0x04, 0x11, 0x33, 0x43]) =
     Inr (True, (received [0x04, 0x11, 0x33, 0x43])\<lparr>crc := (0x33, 0x43)\<rparr>)"
    using checkCrc_result [of "received [0x04, 0x11, 0x33, 0x43]" False]
    by (simp add: received_def wake_vector)
  have b: "1 < unat (countGlobal (received [0x04, 0x11, 0x33, 0x43]))"
    by (simp add: received_def)
  have c: "(0 :: nat) < 8"
    by simp
  have d: "flip_bit 0 (0x11 :: u8) = 0x10"
    by (simp add: flip_bit_eq_xor)
  show ?thesis
    using checkCrc_rejects_single_bit_flip [OF a b c] a b d by (simp add: received_def)
qed

section \<open>The claims about the two checks\<close>

text \<open>
  Claim C5. \<open>checkCount\<close> returns false exactly when the first byte of the response
  buffer differs from the running byte counter \<open>countGlobal\<close>, and true otherwise; it
  leaves the driver object as it is. (The buffer has at least one element.)
\<close>

theorem checkCount_compares_first_byte_with_counter:
  assumes "inputBuffer s \<noteq> []"
  shows "checkCount debug s = Inr (inputBuffer s ! 0 = countGlobal s, s)"
  using assms by (simp add: checkCount_def array_get_def)

theorem checkCount_compares_first_byte_with_counter_witness:
  "inputBuffer (received [0x04, 0x11, 0x33, 0x43]) \<noteq> [] \<and>
   checkCount False (received [0x04, 0x11, 0x33, 0x43]) =
     Inr (True, received [0x04, 0x11, 0x33, 0x43]) \<and>
   inputBuffer (received [0x05, 0x11, 0x33, 0x43]) \<noteq> [] \<and>
   checkCount False (received [0x05, 0x11, 0x33, 0x43]) =
     Inr (False, received [0x05, 0x11, 0x33, 0x43])"
  using checkCount_compares_first_byte_with_counter [of "received [0x04, 0x11, 0x33, 0x43]" False]
    checkCount_compares_first_byte_with_counter [of "received [0x05, 0x11, 0x33, 0x43]" False]
  by (simp add: received_def)

text \<open>
  Claim C6. With a counter of at least 2 that lies within the buffer, \<open>checkCrc\<close>
  recomputes the checksum over the received bytes without the trailing two (the first
  \<open>countGlobal - 2\<close> bytes of the buffer), stores it, and returns false exactly when
  the byte at position \<open>countGlobal - 2\<close> differs from the low checksum byte or the byte at
  position \<open>countGlobal - 1\<close> differs from the high checksum byte; otherwise it returns
  true.
\<close>

theorem checkCrc_recomputes_and_compares:
  assumes "2 \<le> unat (countGlobal s)" and "unat (countGlobal s) \<le> length (inputBuffer s)"
  shows "atca_calculate_crc (countGlobal s - 2) (inputBuffer s) s =
           Inr (s\<lparr>crc := spec_crc (take (unat (countGlobal s) - 2) (inputBuffer s))\<rparr>) \<and>
         checkCrc debug s =
           Inr (\<not> (inputBuffer s ! (unat (countGlobal s) - 2) \<noteq>
                      fst (spec_crc (take (unat (countGlobal s) - 2) (inputBuffer s))) \<or>
                    inputBuffer s ! (unat (countGlobal s) - 1) \<noteq>
                      snd (spec_crc (take (unat (countGlobal s) - 2) (inputBuffer s)))),
                s\<lparr>crc := spec_crc (take (unat (countGlobal s) - 2) (inputBuffer s))\<rparr>)"
proof -
  have "2 \<le> countGlobal s"
    using assms(1) by (simp add: word_le_nat_alt)
  then have "unat (countGlobal s - 2) = unat (countGlobal s) - 2"
    by (simp add: unat_sub)
  then have "atca_calculate_crc (countGlobal s - 2) (inputBuffer s) s =
      Inr (s\<lparr>crc := spec_crc (take (unat (countGlobal s) - 2) (inputBuffer s))\<rparr>)"
    using atca_calculate_crc_spec [of "countGlobal s - 2" "inputBuffer s" s] assms(2) by simp
  then show ?thesis
    using checkCrc_result [OF assms, of debug] by simp
qed

theorem checkCrc_recomputes_and_compares_witness:
  "2 \<le> unat (countGlobal (received [0x04, 0x11, 0x33, 0x43])) \<and>
   unat (countGlobal (received [0x04, 0x11, 0x33, 0x43]))
     \<le> length (inputBuffer (received [0x04, 0x11, 0x33, 0x43])) \<and>
   checkCrc False (received [0x04, 0x11, 0x33, 0x43]) =
     Inr (True, (received [0x04, 0x11, 0x33, 0x43])\<lparr>crc := (0x33, 0x43)\<rparr>) \<and>
   checkCrc False (received [0x04, 0x11, 0x33, 0x44]) =
     Inr (False, (received [0x04, 0x11, 0x33, 0x44])\<lparr>crc := (0x33, 0x43)\<rparr>)"
proof -
  have a: "2 \<le> unat (countGlobal (received [0x04, 0x11, 0x33, 0x43]))"
    and b: "unat (countGlobal (received [0x04, 0x11, 0x33, 0x43]))
      \<le> length (inputBuffer (received [0x04, 0x11, 0x33, 0x43]))"
    and c: "2 \<le> unat (countGlobal (received [0x04, 0x11, 0x33, 0x44]))"
    and d: "unat (countGlobal (received [0x04, 0x11, 0x33, 0x44]))
      \<le> length (inputBuffer (received [0x04, 0x11, 0x33, 0x44]))"
    by (simp_all add: received_def)
  show ?thesis
    using checkCrc_recomputes_and_compares [OF a b, of False]
      checkCrc_recomputes_and_compares [OF c d, of False] a b
    by (simp add: received_def wake_vector)
qed

lemma chunked_reads_unique:
  "chunked_reads answers k remaining rounds1 \<Longrightarrow> chunked_reads answers k remaining rounds2 \<Longrightarrow>
   rounds1 = rounds2"
proof (induction rounds1 arbitrary: k remaining rounds2)
  case Nil
  then show ?case by (cases rounds2) auto
next
  case (Cons r rounds1)
  obtain amount bytes where r: "r = (amount, bytes)"
    by (cases r)
  from Cons.prems(1) have "chunked_reads answers k remaining ((amount, bytes) # rounds1)"
    by (simp only: r)
  then have first: "remaining \<noteq> 0 \<and>
      amount = (if 32 < remaining then 32 else remaining) \<and>
      bytes = take amount (answers k) \<and>
      chunked_reads answers (Suc k) (remaining - length bytes) rounds1"
    unfolding chunked_reads.simps .
  then have rest: "chunked_reads answers (Suc k) (remaining - length bytes) rounds1"
    by blast
  from Cons.prems(2) first obtain r' rounds2' where r2: "rounds2 = r' # rounds2'"
    by (cases rounds2) auto
  obtain amount' bytes' where r': "r' = (amount', bytes')"
    by (cases r')
  from Cons.prems(2) have "chunked_reads answers k remaining ((amount', bytes') # rounds2')"
    by (simp only: r2 r')
  then have second: "remaining \<noteq> 0 \<and>
      amount' = (if 32 < remaining then 32 else remaining) \<and>
      bytes' = take amount' (answers k) \<and>
      chunked_reads answers (Suc k) (remaining - length bytes') rounds2'"
    unfolding chunked_reads.simps .
  from first second have same: "amount' = amount" "bytes' = bytes"
    by simp_all
  with second have rest': "chunked_reads answers (Suc k) (remaining - length bytes) rounds2'"
    by blast
  from Cons.IH [OF rest rest'] same r r' r2 show ?case
    by simp
qed

lemma random_response_length: "length random_response = 35"
  by (simp add: random_response_def data32_def)

section \<open>Waking the device\<close>

lemma wakeUp_after_receive:
  assumes rcv: "receiveResponseData 4 False
        (s\<lparr>i2cPort := wire_endTransmission (wire_beginTransmission 0x00 (i2cPort s)),
           countGlobal := 0\<rparr>) = Some (Inr (True, s3))"
    and cnt: "countGlobal s3 = 4" and cap: "4 \<le> length (inputBuffer s3)"
  shows "wakeUp s = Some (Inr
    (if inputBuffer s3 ! 0 \<noteq> 4 then (False, s3)
     else if \<not> (inputBuffer s3 ! 2 = fst (spec_crc (take 2 (inputBuffer s3))) \<and>
                 inputBuffer s3 ! 3 = snd (spec_crc (take 2 (inputBuffer s3))))
       then (False, s3\<lparr>crc := spec_crc (take 2 (inputBuffer s3))\<rparr>)
     else (inputBuffer s3 ! 1 = 0x11, s3\<lparr>crc := spec_crc (take 2 (inputBuffer s3))\<rparr>)))"
proof -
  have c1: "checkCount False s3 = Inr (inputBuffer s3 ! 0 = 4, s3)"
    using cap cnt by (cases "inputBuffer s3") (simp_all add: checkCount_def array_get_def)
  have c2: "checkCrc False s3 =
      Inr (inputBuffer s3 ! 2 = fst (spec_crc (take 2 (inputBuffer s3))) \<and>
           inputBuffer s3 ! 3 = snd (spec_crc (take 2 (inputBuffer s3))),
           s3\<lparr>crc := spec_crc (take 2 (inputBuffer s3))\<rparr>)"
    using checkCrc_result [of s3 False] cap cnt by simp
  have g: "array_get (inputBuffer s3) 1 = Inr (inputBuffer s3 ! Suc 0)"
    using cap by (simp add: array_get_def)
  show ?thesis
    unfolding wakeUp_def Let_def
    by (simp add: rcv and_then_def c1 c2 g)
qed


lemma wakeUp_Some:
  assumes "wakeUp s = Some (Inr (r, s'))"
  shows "\<exists>rounds.
    chunked_reads (slave (i2cPort s)) (length (requests (i2cPort s))) 4 rounds \<and>
    length (concat (map snd rounds)) = 4 \<and>
    4 \<le> length (inputBuffer s) \<and>
    inputBuffer s' = concat (map snd rounds) @ replicate (length (inputBuffer s) - 4) 0 \<and>
    countGlobal s' = 4 \<and>
    r = (inputBuffer s' ! 0 = 4 \<and>
         inputBuffer s' ! 2 = fst (spec_crc (take 2 (inputBuffer s'))) \<and>
         inputBuffer s' ! 3 = snd (spec_crc (take 2 (inputBuffer s'))) \<and>
         inputBuffer s' ! 1 = 0x11) \<and>
    crc s' = (if inputBuffer s' ! 0 = 4 then spec_crc (take 2 (inputBuffer s')) else crc s) \<and>
    requests (i2cPort s') =
      requests (i2cPort s) @ map (\<lambda>(amount, bytes). (i2caddr s, of_nat amount)) rounds \<and>
    sent (i2cPort s') = sent (i2cPort s) @ [(0x00, [])] \<and>
    slave (i2cPort s') = slave (i2cPort s) \<and>
    i2caddr s' = i2caddr s \<and>
    random32Bytes s' = random32Bytes s"
proof -
  define s2 where "s2 = s\<lparr>i2cPort := wire_endTransmission (wire_beginTransmission 0x00 (i2cPort s)),
      countGlobal := 0\<rparr>"
  obtain r0 s3 where rcv0: "receiveResponseData 4 False s2 = Some (Inr (r0, s3))"
    using assms unfolding wakeUp_def Let_def s2_def [symmetric]
    by (auto simp: and_then_def split: option.splits sum.splits)
  from receiveResponseData_Some [OF rcv0] obtain rounds
    where r0: "r0 = True"
      and rec: "reception 4 (s2\<lparr>countGlobal := 0,
        inputBuffer := replicate (length (inputBuffer s2)) 0\<rparr>) rounds s3"
    by blast
  have f2: "slave (i2cPort s2) = slave (i2cPort s)" "requests (i2cPort s2) = requests (i2cPort s)"
      "sent (i2cPort s2) = sent (i2cPort s) @ [(0x00, [])]" "i2caddr s2 = i2caddr s"
      "random32Bytes s2 = random32Bytes s" "length (inputBuffer s2) = length (inputBuffer s)"
      "crc s2 = crc s"
    by (simp_all add: s2_def wire_endTransmission_def wire_beginTransmission_def)
  have ch: "chunked_reads (slave (i2cPort s)) (length (requests (i2cPort s))) 4 rounds"
    using rec by (simp add: reception_def f2)
  have tot: "length (concat (map snd rounds)) = 4"
    using chunked_reads_total [OF ch] .
  have cap: "4 \<le> length (inputBuffer s)"
    using rec by (simp add: reception_def f2)
  have ib: "inputBuffer s3 = concat (map snd rounds) @ replicate (length (inputBuffer s) - 4) 0"
    and cg: "countGlobal s3 = 4"
    and fr: "requests (i2cPort s3) =
        requests (i2cPort s) @ map (\<lambda>(amount, bytes). (i2caddr s, of_nat amount)) rounds"
      "sent (i2cPort s3) = sent (i2cPort s) @ [(0x00, [])]"
      "slave (i2cPort s3) = slave (i2cPort s)" "i2caddr s3 = i2caddr s"
      "random32Bytes s3 = random32Bytes s"
    and c3: "crc s3 = crc s"
    using rec by (simp_all add: reception_def f2)
  have cap3: "4 \<le> length (inputBuffer s3)"
    using ib tot cap by simp
  note w = wakeUp_after_receive [OF rcv0 [unfolded s2_def r0] cg cap3]
  from assms w have res: "(r, s') =
    (if inputBuffer s3 ! 0 \<noteq> 4 then (False, s3)
     else if \<not> (inputBuffer s3 ! 2 = fst (spec_crc (take 2 (inputBuffer s3))) \<and>
                 inputBuffer s3 ! 3 = snd (spec_crc (take 2 (inputBuffer s3))))
       then (False, s3\<lparr>crc := spec_crc (take 2 (inputBuffer s3))\<rparr>)
     else (inputBuffer s3 ! 1 = 0x11, s3\<lparr>crc := spec_crc (take 2 (inputBuffer s3))\<rparr>))"
    by simp
  then have same: "inputBuffer s' = inputBuffer s3" "countGlobal s' = countGlobal s3"
      "i2cPort s' = i2cPort s3" "i2caddr s' = i2caddr s3" "random32Bytes s' = random32Bytes s3"
    by (auto split: if_splits)
  from res have verdict: "r = (inputBuffer s3 ! 0 = 4 \<and>
         inputBuffer s3 ! 2 = fst (spec_crc (take 2 (inputBuffer s3))) \<and>
         inputBuffer s3 ! 3 = snd (spec_crc (take 2 (inputBuffer s3))) \<and>
         inputBuffer s3 ! 1 = 0x11)"
    by (auto split: if_splits)
  from res have sum: "crc s' =
      (if inputBuffer s3 ! 0 = 4 then spec_crc (take 2 (inputBuffer s3)) else crc s)"
    by (auto simp: c3 split: if_splits)
  show ?thesis
    unfolding same using ch tot cap ib cg verdict sum fr by blast
qed

lemma wakeUp_returns:
  assumes "chunked_reads (slave (i2cPort s)) (length (requests (i2cPort s))) 4 rounds"
    and "4 \<le> length (inputBuffer s)"
  shows "\<exists>r s'. wakeUp s = Some (Inr (r, s'))"
proof -
  define s2 where "s2 = s\<lparr>i2cPort := wire_endTransmission (wire_beginTransmission 0x00 (i2cPort s)),
      countGlobal := 0\<rparr>"
  have f2: "slave (i2cPort s2) = slave (i2cPort s)" "requests (i2cPort s2) = requests (i2cPort s)"
      "length (inputBuffer s2) = length (inputBuffer s)"
    by (simp_all add: s2_def wire_endTransmission_def wire_beginTransmission_def)
  obtain s3 where rcv: "receiveResponseData 4 False s2 = Some (Inr (True, s3))"
    using receiveResponseData_returns [of s2 4 rounds False] assms by (auto simp: f2)
  from receiveResponseData_Some [OF rcv] obtain rounds'
    where rec: "reception 4 (s2\<lparr>countGlobal := 0,
        inputBuffer := replicate (length (inputBuffer s2)) 0\<rparr>) rounds' s3"
    by blast
  have "chunked_reads (slave (i2cPort s2)) (length (requests (i2cPort s2))) 4 rounds'"
    using rec by (simp add: reception_def)
  then have "length (concat (map snd rounds')) = 4"
    by (rule chunked_reads_total)
  then have "countGlobal s3 = 4" "4 \<le> length (inputBuffer s3)"
    using rec by (simp_all add: reception_def)
  from wakeUp_after_receive [OF rcv [unfolded s2_def] this] show ?thesis
    by (metis surj_pair)
qed

lemma wakeUp_decides:
  assumes ch: "chunked_reads (slave (i2cPort s)) (length (requests (i2cPort s))) 4 rounds"
    and cap: "4 \<le> length (inputBuffer s)"
  shows "\<exists>s'. wakeUp s =
      Some (Inr (concat (map snd rounds) ! 0 = 4 \<and>
                 concat (map snd rounds) ! 2 = fst (spec_crc (take 2 (concat (map snd rounds)))) \<and>
                 concat (map snd rounds) ! 3 = snd (spec_crc (take 2 (concat (map snd rounds)))) \<and>
                 concat (map snd rounds) ! 1 = 0x11, s')) \<and>
    inputBuffer s' = concat (map snd rounds) @ replicate (length (inputBuffer s) - 4) 0 \<and>
    countGlobal s' = 4 \<and>
    crc s' = (if concat (map snd rounds) ! 0 = 4 then spec_crc (take 2 (concat (map snd rounds)))
              else crc s) \<and>
    requests (i2cPort s') =
      requests (i2cPort s) @ map (\<lambda>(amount, bytes). (i2caddr s, of_nat amount)) rounds \<and>
    sent (i2cPort s') = sent (i2cPort s) @ [(0x00, [])] \<and>
    slave (i2cPort s') = slave (i2cPort s) \<and>
    i2caddr s' = i2caddr s \<and>
    random32Bytes s' = random32Bytes s"
proof -
  define ack where "ack = concat (map snd rounds)"
  from wakeUp_returns [OF ch cap] obtain r s' where w: "wakeUp s = Some (Inr (r, s'))"
    by blast
  from wakeUp_Some [OF w] obtain rounds'
    where ch': "chunked_reads (slave (i2cPort s)) (length (requests (i2cPort s))) 4 rounds'"
      and ib': "inputBuffer s' = concat (map snd rounds') @ replicate (length (inputBuffer s) - 4) 0"
      and cg: "countGlobal s' = 4"
      and r: "r = (inputBuffer s' ! 0 = 4 \<and>
         inputBuffer s' ! 2 = fst (spec_crc (take 2 (inputBuffer s'))) \<and>
         inputBuffer s' ! 3 = snd (spec_crc (take 2 (inputBuffer s'))) \<and>
         inputBuffer s' ! 1 = 0x11)"
      and sum: "crc s' = (if inputBuffer s' ! 0 = 4 then spec_crc (take 2 (inputBuffer s')) else crc s)"
      and rq': "requests (i2cPort s') =
        requests (i2cPort s) @ map (\<lambda>(amount, bytes). (i2caddr s, of_nat amount)) rounds'"
      and fr: "sent (i2cPort s') = sent (i2cPort s) @ [(0x00, [])]"
        "slave (i2cPort s') = slave (i2cPort s)" "i2caddr s' = i2caddr s"
        "random32Bytes s' = random32Bytes s"
    by blast
  have same: "rounds' = rounds"
    using ch' ch by (rule chunked_reads_unique)
  have len: "length ack = 4"
    unfolding ack_def using ch by (rule chunked_reads_total)
  have ib: "inputBuffer s' = ack @ replicate (length (inputBuffer s) - 4) 0"
    using ib' by (simp add: same ack_def)
  have n: "inputBuffer s' ! 0 = ack ! 0" "inputBuffer s' ! 1 = ack ! 1"
      "inputBuffer s' ! 2 = ack ! 2" "inputBuffer s' ! 3 = ack ! 3"
      "take 2 (inputBuffer s') = take 2 ack"
    using len by (simp_all add: ib nth_append)
  have rq: "requests (i2cPort s') =
      requests (i2cPort s) @ map (\<lambda>(amount, bytes). (i2caddr s, of_nat amount)) rounds"
    using rq' by (simp only: same)
  have "wakeUp s = Some (Inr (ack ! 0 = 4 \<and> ack ! 2 = fst (spec_crc (take 2 ack)) \<and>
      ack ! 3 = snd (spec_crc (take 2 ack)) \<and> ack ! 1 = 0x11, s'))"
    using w r unfolding n by simp
  moreover have "crc s' = (if ack ! 0 = 4 then spec_crc (take 2 ack) else crc s)"
    using sum unfolding n .
  ultimately show ?thesis
    unfolding ack_def [symmetric] using ib cg rq fr by blast
qed


section \<open>The random fetch\<close>

lemma copy_loop_result:
  "i \<le> 32 \<Longrightarrow>
   copy_loop i s =
     (if i = 32 \<or> (33 \<le> length (inputBuffer s) \<and> 32 \<le> length (random32Bytes s)) then
        Inr (s\<lparr>random32Bytes := take i (random32Bytes s) @
               take (32 - i) (drop (i + 1) (inputBuffer s)) @ drop 32 (random32Bytes s)\<rparr>)
      else Inl OutOfBounds)"
proof (induction i s rule: copy_loop.induct)
  case (1 i s)
  define buf where "buf = inputBuffer s"
  define rnd where "rnd = random32Bytes s"
  show ?case
  proof (cases "i < 32")
    case False
    with "1.prems" have "i = 32" by simp
    then show ?thesis
      by (subst copy_loop.simps) simp
  next
    case True
    show ?thesis
    proof (cases "i + 1 < length buf \<and> i < length rnd")
      case False
      with True have "\<not> (33 \<le> length buf \<and> 32 \<le> length rnd)"
        by auto
      with True False show ?thesis
        by (subst copy_loop.simps) (auto simp: buf_def rnd_def)
    next
      case inb: True
      define s1 where "s1 = s\<lparr>random32Bytes := rnd[i := buf ! (i + 1)]\<rparr>"
      have step: "copy_loop i s = copy_loop (i + 1) s1"
        using True inb by (subst copy_loop.simps) (simp add: s1_def buf_def rnd_def)
      have ih: "copy_loop (i + 1) s1 =
        (if i + 1 = 32 \<or> (33 \<le> length (inputBuffer s1) \<and> 32 \<le> length (random32Bytes s1)) then
           Inr (s1\<lparr>random32Bytes := take (i + 1) (random32Bytes s1) @
                  take (32 - (i + 1)) (drop (i + 1 + 1) (inputBuffer s1)) @
                  drop 32 (random32Bytes s1)\<rparr>)
         else Inl OutOfBounds)"
        using True inb unfolding s1_def buf_def rnd_def by (intro "1.IH") simp_all
      have cond: "(i + 1 = 32 \<or> (33 \<le> length buf \<and> 32 \<le> length rnd)) \<longleftrightarrow>
          (i = 32 \<or> (33 \<le> length buf \<and> 32 \<le> length rnd))"
        using True inb by auto
      have tk: "take (i + 1) (rnd[i := buf ! (i + 1)]) = take i rnd @ [buf ! (i + 1)]"
        using inb by (simp add: take_Suc_conv_app_nth)
      have dr: "take (32 - i) (drop (i + 1) buf) =
          buf ! (i + 1) # take (32 - (i + 1)) (drop (i + 1 + 1) buf)"
      proof -
        have e: "32 - i = Suc (32 - (i + 1))"
          using True by simp
        have d: "drop (i + 1) buf = buf ! (i + 1) # drop (i + 1 + 1) buf"
          using inb by (simp add: Cons_nth_drop_Suc)
        show ?thesis
          by (simp only: d e take_Suc_Cons)
      qed
      have d32: "drop 32 (rnd[i := buf ! (i + 1)]) = drop 32 rnd"
        using True by simp
      have f1: "inputBuffer s1 = buf" "random32Bytes s1 = rnd[i := buf ! (i + 1)]"
        by (simp_all add: s1_def buf_def)
      have st: "s1\<lparr>random32Bytes := (take i rnd @ [buf ! (i + 1)]) @
              take (32 - (i + 1)) (drop (i + 1 + 1) buf) @ drop 32 rnd\<rparr> =
            s\<lparr>random32Bytes := take i rnd @ take (32 - i) (drop (i + 1) buf) @ drop 32 rnd\<rparr>"
        unfolding dr by (simp add: s1_def)
      show ?thesis
        unfolding step ih f1 tk d32 length_list_update cond st
        unfolding buf_def rnd_def ..
    qed
  qed
qed


lemma send_command_Some:
  assumes "send_command h command s = Some (Inr s3)"
  shows "\<exists>rounds.
    chunked_reads (slave (i2cPort s)) (length (requests (i2cPort s))) 4 rounds \<and>
    4 \<le> length (inputBuffer s) \<and>
    length (inputBuffer s3) = length (inputBuffer s) \<and>
    requests (i2cPort s3) =
      requests (i2cPort s) @ map (\<lambda>(amount, bytes). (i2caddr s, of_nat amount)) rounds \<and>
    sent (i2cPort s3) = sent (i2cPort s) @
      [(0x00, []),
       (i2caddr s, [WORD_ADDRESS_VALUE_COMMAND h, 0x07, command, 0x00, 0x00, 0x00,
          fst (spec_crc [0x07, command, 0x00, 0x00, 0x00]),
          snd (spec_crc [0x07, command, 0x00, 0x00, 0x00])])] \<and>
    slave (i2cPort s3) = slave (i2cPort s) \<and>
    i2caddr s3 = i2caddr s \<and>
    random32Bytes s3 = random32Bytes s"
proof -
  define s1 where "s1 = s\<lparr>crc := spec_crc [0x07, command, 0x00, 0x00, 0x00]\<rparr>"
  have c: "atca_calculate_crc (0x07 - 2) [0x07, command, 0x00, 0x00, 0x00] s = Inr s1"
    using atca_calculate_crc_spec [of 5 "[0x07, command, 0x00, 0x00, 0x00]" s]
    by (simp add: s1_def)
  obtain r s2 where w: "wakeUp s1 = Some (Inr (r, s2))"
    and s3: "s3 = s2\<lparr>i2cPort := wire_endTransmission
          (wire_write (take 8 [WORD_ADDRESS_VALUE_COMMAND h, 0x07, command, 0x00, 0x00, 0x00,
              fst (crc s1), snd (crc s1), 0])
            (wire_beginTransmission (i2caddr s2) (i2cPort s2)))\<rparr>"
    using assms unfolding send_command_def Let_def c
    by (auto simp: and_then_def split: option.splits sum.splits)
  have f1: "slave (i2cPort s1) = slave (i2cPort s)" "requests (i2cPort s1) = requests (i2cPort s)"
      "inputBuffer s1 = inputBuffer s" "i2caddr s1 = i2caddr s"
      "random32Bytes s1 = random32Bytes s" "sent (i2cPort s1) = sent (i2cPort s)"
    by (simp_all add: s1_def)
  from wakeUp_Some [OF w, unfolded f1] obtain rounds
    where ch: "chunked_reads (slave (i2cPort s)) (length (requests (i2cPort s))) 4 rounds"
      and tot: "length (concat (map snd rounds)) = 4"
      and cap: "4 \<le> length (inputBuffer s)"
      and ib: "inputBuffer s2 = concat (map snd rounds) @ replicate (length (inputBuffer s) - 4) 0"
      and fr: "requests (i2cPort s2) =
          requests (i2cPort s) @ map (\<lambda>(amount, bytes). (i2caddr s, of_nat amount)) rounds"
        "slave (i2cPort s2) = slave (i2cPort s)" "i2caddr s2 = i2caddr s"
        "random32Bytes s2 = random32Bytes s"
      and st: "sent (i2cPort s2) = sent (i2cPort s) @ [(0x00, [])]"
    by blast
  have len: "length (inputBuffer s3) = length (inputBuffer s)"
    using ib tot cap by (simp add: s3)
  have fr3: "requests (i2cPort s3) = requests (i2cPort s2)" "slave (i2cPort s3) = slave (i2cPort s2)"
      "i2caddr s3 = i2caddr s2" "random32Bytes s3 = random32Bytes s2"
    by (simp_all add: s3 wire_endTransmission_def wire_write_def wire_beginTransmission_def)
  have st3: "sent (i2cPort s3) = sent (i2cPort s) @
      [(0x00, []),
       (i2caddr s, [WORD_ADDRESS_VALUE_COMMAND h, 0x07, command, 0x00, 0x00, 0x00,
          fst (spec_crc [0x07, command, 0x00, 0x00, 0x00]),
          snd (spec_crc [0x07, command, 0x00, 0x00, 0x00])])]"
    by (simp add: s3 wire_endTransmission_def wire_write_def wire_beginTransmission_def st fr s1_def)
  show ?thesis
    unfolding fr3 using ch cap len [unfolded] fr st3 by blast
qed

lemma send_command_returns:
  assumes "chunked_reads (slave (i2cPort s)) (length (requests (i2cPort s))) 4 rounds"
    and "4 \<le> length (inputBuffer s)"
  shows "\<exists>s3. send_command h command s = Some (Inr s3)"
proof -
  define s1 where "s1 = s\<lparr>crc := spec_crc [0x07, command, 0x00, 0x00, 0x00]\<rparr>"
  have c: "atca_calculate_crc (0x07 - 2) [0x07, command, 0x00, 0x00, 0x00] s = Inr s1"
    using atca_calculate_crc_spec [of 5 "[0x07, command, 0x00, 0x00, 0x00]" s]
    by (simp add: s1_def)
  have "\<exists>r s2. wakeUp s1 = Some (Inr (r, s2))"
    using assms by (intro wakeUp_returns [of _ rounds]) (simp_all add: s1_def)
  then show ?thesis
    unfolding send_command_def Let_def c by (auto simp: and_then_def)
qed

lemma idleMode_fields:
  "inputBuffer (idleMode h s) = inputBuffer s" "countGlobal (idleMode h s) = countGlobal s"
  "random32Bytes (idleMode h s) = random32Bytes s" "crc (idleMode h s) = crc s"
  "i2caddr (idleMode h s) = i2caddr s"
  by (simp_all add: idleMode_def)

lemma updateRandom32Bytes_after_receive:
  assumes snd: "send_command h (COMMAND_OPCODE_RANDOM h) s = Some (Inr s3)"
    and rcv: "receiveResponseData 35 debug s3 = Some (Inr (True, s4))"
    and cnt: "countGlobal s4 = 35" and cap: "35 \<le> length (inputBuffer s4)"
  shows "updateRandom32Bytes h debug s =
    (if inputBuffer s4 ! 0 \<noteq> 35 then Some (Inr (False, idleMode h s4))
     else if \<not> (inputBuffer s4 ! 33 = fst (spec_crc (take 33 (inputBuffer s4))) \<and>
                 inputBuffer s4 ! 34 = snd (spec_crc (take 33 (inputBuffer s4))))
       then Some (Inr (False, (idleMode h s4)\<lparr>crc := spec_crc (take 33 (inputBuffer s4))\<rparr>))
     else if 32 \<le> length (random32Bytes s4)
       then Some (Inr (True, (idleMode h s4)\<lparr>crc := spec_crc (take 33 (inputBuffer s4)),
              random32Bytes := take 32 (drop 1 (inputBuffer s4)) @ drop 32 (random32Bytes s4)\<rparr>))
     else Some (Inl OutOfBounds))"
proof -
  define s5 where "s5 = idleMode h s4"
  define c where "c = spec_crc (take 33 (inputBuffer s4))"
  have f5: "inputBuffer s5 = inputBuffer s4" "countGlobal s5 = 35"
      "random32Bytes s5 = random32Bytes s4"
    by (simp_all add: s5_def idleMode_fields cnt)
  have c1: "checkCount debug s5 = Inr (inputBuffer s4 ! 0 = 35, s5)"
    using cap by (cases "inputBuffer s4") (simp_all add: checkCount_def array_get_def f5)
  have c2: "checkCrc debug s5 =
      Inr (inputBuffer s4 ! 33 = fst c \<and> inputBuffer s4 ! 34 = snd c, s5\<lparr>crc := c\<rparr>)"
    using checkCrc_result [of s5 debug] cap by (simp add: f5 c_def)
  have cp: "copy_loop 0 (s5\<lparr>crc := c\<rparr>) =
      (if 32 \<le> length (random32Bytes s4) then
         Inr (s5\<lparr>crc := c, random32Bytes := take 32 (drop 1 (inputBuffer s4)) @
                drop 32 (random32Bytes s4)\<rparr>)
       else Inl OutOfBounds)"
    using copy_loop_result [of 0 "s5\<lparr>crc := c\<rparr>"] cap by (simp add: f5)
  show ?thesis
    unfolding updateRandom32Bytes_def c_def [symmetric]
    by (simp add: snd rcv and_then_def c1 [unfolded s5_def] c2 [unfolded s5_def]
        cp [unfolded s5_def])
qed


lemma updateRandom32Bytes_Some:
  assumes "updateRandom32Bytes h debug s = Some (Inr (r, s'))"
  shows "\<exists>wake_rounds rounds.
    chunked_reads (slave (i2cPort s)) (length (requests (i2cPort s))) 4 wake_rounds \<and>
    chunked_reads (slave (i2cPort s)) (length (requests (i2cPort s)) + length wake_rounds) 35
      rounds \<and>
    length (concat (map snd rounds)) = 35 \<and>
    35 \<le> length (inputBuffer s) \<and>
    inputBuffer s' = concat (map snd rounds) @ replicate (length (inputBuffer s) - 35) 0 \<and>
    countGlobal s' = 35 \<and>
    r = (inputBuffer s' ! 0 = 35 \<and>
         inputBuffer s' ! 33 = fst (spec_crc (take 33 (inputBuffer s'))) \<and>
         inputBuffer s' ! 34 = snd (spec_crc (take 33 (inputBuffer s')))) \<and>
    random32Bytes s' =
      (if r then take 32 (drop 1 (inputBuffer s')) @ drop 32 (random32Bytes s)
       else random32Bytes s) \<and>
    (r \<longrightarrow> 32 \<le> length (random32Bytes s)) \<and>
    requests (i2cPort s') =
      requests (i2cPort s) @
      map (\<lambda>(amount, bytes). (i2caddr s, of_nat amount)) (wake_rounds @ rounds) \<and>
    sent (i2cPort s') = sent (i2cPort s) @
      [(0x00, []),
       (i2caddr s, [WORD_ADDRESS_VALUE_COMMAND h, 0x07, COMMAND_OPCODE_RANDOM h, 0x00, 0x00, 0x00,
          fst (spec_crc [0x07, COMMAND_OPCODE_RANDOM h, 0x00, 0x00, 0x00]),
          snd (spec_crc [0x07, COMMAND_OPCODE_RANDOM h, 0x00, 0x00, 0x00])]),
       (i2caddr s, [WORD_ADDRESS_VALUE_IDLE h])] \<and>
    slave (i2cPort s') = slave (i2cPort s) \<and>
    i2caddr s' = i2caddr s"
proof -
  obtain s3 where snd: "send_command h (COMMAND_OPCODE_RANDOM h) s = Some (Inr s3)"
    using assms unfolding updateRandom32Bytes_def
    by (auto simp: and_then_def split: option.splits sum.splits)
  obtain r0 s4 where rcv0: "receiveResponseData 35 debug s3 = Some (Inr (r0, s4))"
    using assms unfolding updateRandom32Bytes_def
    by (auto simp: snd and_then_def split: option.splits sum.splits)
  from send_command_Some [OF snd] obtain wake_rounds
    where wch: "chunked_reads (slave (i2cPort s)) (length (requests (i2cPort s))) 4 wake_rounds"
      and len3: "length (inputBuffer s3) = length (inputBuffer s)"
      and rq3: "requests (i2cPort s3) = requests (i2cPort s) @
          map (\<lambda>(amount, bytes). (i2caddr s, of_nat amount)) wake_rounds"
      and st3: "sent (i2cPort s3) = sent (i2cPort s) @
        [(0x00, []),
         (i2caddr s, [WORD_ADDRESS_VALUE_COMMAND h, 0x07, COMMAND_OPCODE_RANDOM h, 0x00, 0x00, 0x00,
            fst (spec_crc [0x07, COMMAND_OPCODE_RANDOM h, 0x00, 0x00, 0x00]),
            snd (spec_crc [0x07, COMMAND_OPCODE_RANDOM h, 0x00, 0x00, 0x00])])]"
      and sl3: "slave (i2cPort s3) = slave (i2cPort s)"
      and ad3: "i2caddr s3 = i2caddr s"
      and rnd3: "random32Bytes s3 = random32Bytes s"
    by blast
  from receiveResponseData_Some [OF rcv0] obtain rounds
    where r0: "r0 = True"
      and rec: "reception 35 (s3\<lparr>countGlobal := 0,
        inputBuffer := replicate (length (inputBuffer s3)) 0\<rparr>) rounds s4"
    by blast
  have ch: "chunked_reads (slave (i2cPort s)) (length (requests (i2cPort s)) + length wake_rounds)
      35 rounds"
    using rec by (simp add: reception_def sl3 rq3)
  have tot: "length (concat (map snd rounds)) = 35"
    using ch by (rule chunked_reads_total)
  have cap: "35 \<le> length (inputBuffer s)"
    using rec by (simp add: reception_def len3)
  have ib: "inputBuffer s4 = concat (map snd rounds) @ replicate (length (inputBuffer s) - 35) 0"
    and cg: "countGlobal s4 = 35" and rnd4: "random32Bytes s4 = random32Bytes s"
    using rec by (simp_all add: reception_def len3 rnd3)
  have port4: "requests (i2cPort s4) = requests (i2cPort s) @
        map (\<lambda>(amount, bytes). (i2caddr s, of_nat amount)) (wake_rounds @ rounds)"
      "sent (i2cPort s4) = sent (i2cPort s3)" "slave (i2cPort s4) = slave (i2cPort s)"
      "i2caddr s4 = i2caddr s"
    using rec by (simp_all add: reception_def rq3 sl3 ad3)
  have idle: "requests (i2cPort (idleMode h s4)) = requests (i2cPort s4)"
      "sent (i2cPort (idleMode h s4)) = sent (i2cPort s4) @ [(i2caddr s4, [WORD_ADDRESS_VALUE_IDLE h])]"
      "slave (i2cPort (idleMode h s4)) = slave (i2cPort s4)"
    by (simp_all add: idleMode_def wire_endTransmission_def wire_write_def wire_beginTransmission_def)
  have cap4: "35 \<le> length (inputBuffer s4)"
    using ib tot cap by simp
  note u = updateRandom32Bytes_after_receive [OF snd rcv0 [unfolded r0] cg cap4]
  from assms have res: "Some (Inr (r, s')) =
    (if inputBuffer s4 ! 0 \<noteq> 35 then Some (Inr (False, idleMode h s4))
     else if \<not> (inputBuffer s4 ! 33 = fst (spec_crc (take 33 (inputBuffer s4))) \<and>
                 inputBuffer s4 ! 34 = snd (spec_crc (take 33 (inputBuffer s4))))
       then Some (Inr (False, (idleMode h s4)\<lparr>crc := spec_crc (take 33 (inputBuffer s4))\<rparr>))
     else if 32 \<le> length (random32Bytes s4)
       then Some (Inr (True, (idleMode h s4)\<lparr>crc := spec_crc (take 33 (inputBuffer s4)),
              random32Bytes := take 32 (drop 1 (inputBuffer s4)) @ drop 32 (random32Bytes s4)\<rparr>))
     else Some (Inl OutOfBounds))"
    unfolding u by simp
  then have same: "inputBuffer s' = inputBuffer s4" "countGlobal s' = countGlobal s4"
    by (auto simp: idleMode_fields split: if_splits)
  from res have port: "i2cPort s' = i2cPort (idleMode h s4)" and ad: "i2caddr s' = i2caddr s4"
    by (auto simp: idleMode_fields split: if_splits)
  from res have verdict: "r = (inputBuffer s4 ! 0 = 35 \<and>
         inputBuffer s4 ! 33 = fst (spec_crc (take 33 (inputBuffer s4))) \<and>
         inputBuffer s4 ! 34 = snd (spec_crc (take 33 (inputBuffer s4))))"
    by (auto split: if_splits)
  from res have rnd: "random32Bytes s' =
      (if r then take 32 (drop 1 (inputBuffer s4)) @ drop 32 (random32Bytes s)
       else random32Bytes s)"
    by (auto simp: idleMode_fields rnd4 split: if_splits)
  from res have big: "r \<longrightarrow> 32 \<le> length (random32Bytes s)"
    by (auto simp: rnd4 split: if_splits)
  have rq: "requests (i2cPort s') = requests (i2cPort s) @
        map (\<lambda>(amount, bytes). (i2caddr s, of_nat amount)) (wake_rounds @ rounds)"
    and st: "sent (i2cPort s') = sent (i2cPort s) @
      [(0x00, []),
       (i2caddr s, [WORD_ADDRESS_VALUE_COMMAND h, 0x07, COMMAND_OPCODE_RANDOM h, 0x00, 0x00, 0x00,
          fst (spec_crc [0x07, COMMAND_OPCODE_RANDOM h, 0x00, 0x00, 0x00]),
          snd (spec_crc [0x07, COMMAND_OPCODE_RANDOM h, 0x00, 0x00, 0x00])]),
       (i2caddr s, [WORD_ADDRESS_VALUE_IDLE h])]"
    and sl: "slave (i2cPort s') = slave (i2cPort s)" and ad': "i2caddr s' = i2caddr s"
    by (simp_all add: port ad idle port4 st3)
  show ?thesis
    unfolding same using wch ch tot cap ib cg verdict rnd big rq st sl ad' by blast
qed


lemma updateRandom32Bytes_returns:
  assumes "chunked_reads (slave (i2cPort s)) (length (requests (i2cPort s))) 4 wake_rounds"
    and "chunked_reads (slave (i2cPort s)) (length (requests (i2cPort s)) + length wake_rounds) 35
      rounds"
    and "35 \<le> length (inputBuffer s)" and "32 \<le> length (random32Bytes s)"
  shows "\<exists>r s'. updateRandom32Bytes h debug s = Some (Inr (r, s'))"
proof -
  have "4 \<le> length (inputBuffer s)"
    using assms(3) by simp
  from send_command_returns [OF assms(1) this] obtain s3
    where snd: "send_command h (COMMAND_OPCODE_RANDOM h) s = Some (Inr s3)"
    by blast
  from send_command_Some [OF snd] obtain wake_rounds'
    where wch: "chunked_reads (slave (i2cPort s)) (length (requests (i2cPort s))) 4 wake_rounds'"
      and len3: "length (inputBuffer s3) = length (inputBuffer s)"
      and rq3: "requests (i2cPort s3) = requests (i2cPort s) @
          map (\<lambda>(amount, bytes). (i2caddr s, of_nat amount)) wake_rounds'"
      and sl3: "slave (i2cPort s3) = slave (i2cPort s)"
      and rnd3: "random32Bytes s3 = random32Bytes s"
    by blast
  have "wake_rounds' = wake_rounds"
    using wch assms(1) by (rule chunked_reads_unique)
  then have "chunked_reads (slave (i2cPort s3)) (length (requests (i2cPort s3))) (unat (35 :: u8)) rounds"
    using assms(2) by (simp add: sl3 rq3)
  moreover have "unat (35 :: u8) \<le> length (inputBuffer s3)"
    using assms(3) by (simp add: len3)
  ultimately obtain s4 where rcv: "receiveResponseData 35 debug s3 = Some (Inr (True, s4))"
    using receiveResponseData_returns by blast
  from receiveResponseData_Some [OF rcv] obtain rounds'
    where rec: "reception 35 (s3\<lparr>countGlobal := 0,
        inputBuffer := replicate (length (inputBuffer s3)) 0\<rparr>) rounds' s4"
    by blast
  have "chunked_reads (slave (i2cPort s3)) (length (requests (i2cPort s3))) 35 rounds'"
    using rec by (simp add: reception_def)
  then have "length (concat (map snd rounds')) = 35"
    by (rule chunked_reads_total)
  then have cg: "countGlobal s4 = 35" and cap4: "35 \<le> length (inputBuffer s4)"
    and rnd4: "random32Bytes s4 = random32Bytes s"
    using rec by (simp_all add: reception_def rnd3)
  from updateRandom32Bytes_after_receive [OF snd rcv cg cap4] assms(4) show ?thesis
    by (auto simp: rnd4)
qed

lemma random_vector: "spec_crc (take 33 random_response) = (0x5C, 0xEE)"
  unfolding random_response_def data32_def by code_simp

lemma updateRandom32Bytes_decides:
  assumes wch: "chunked_reads (slave (i2cPort s)) (length (requests (i2cPort s))) 4 wake_rounds"
    and ch: "chunked_reads (slave (i2cPort s)) (length (requests (i2cPort s)) + length wake_rounds) 35
      rounds"
    and cap: "35 \<le> length (inputBuffer s)" and rnd: "32 \<le> length (random32Bytes s)"
  shows "\<exists>s'. updateRandom32Bytes h debug s =
      Some (Inr (concat (map snd rounds) ! 0 = 35 \<and>
                 concat (map snd rounds) ! 33 = fst (spec_crc (take 33 (concat (map snd rounds)))) \<and>
                 concat (map snd rounds) ! 34 = snd (spec_crc (take 33 (concat (map snd rounds)))),
                 s')) \<and>
    inputBuffer s' = concat (map snd rounds) @ replicate (length (inputBuffer s) - 35) 0 \<and>
    countGlobal s' = 35 \<and>
    random32Bytes s' =
      (if concat (map snd rounds) ! 0 = 35 \<and>
          concat (map snd rounds) ! 33 = fst (spec_crc (take 33 (concat (map snd rounds)))) \<and>
          concat (map snd rounds) ! 34 = snd (spec_crc (take 33 (concat (map snd rounds))))
       then take 32 (drop 1 (concat (map snd rounds))) @ drop 32 (random32Bytes s)
       else random32Bytes s) \<and>
    requests (i2cPort s') =
      requests (i2cPort s) @
      map (\<lambda>(amount, bytes). (i2caddr s, of_nat amount)) (wake_rounds @ rounds) \<and>
    sent (i2cPort s') = sent (i2cPort s) @
      [(0x00, []),
       (i2caddr s, [WORD_ADDRESS_VALUE_COMMAND h, 0x07, COMMAND_OPCODE_RANDOM h, 0x00, 0x00, 0x00,
          fst (spec_crc [0x07, COMMAND_OPCODE_RANDOM h, 0x00, 0x00, 0x00]),
          snd (spec_crc [0x07, COMMAND_OPCODE_RANDOM h, 0x00, 0x00, 0x00])]),
       (i2caddr s, [WORD_ADDRESS_VALUE_IDLE h])] \<and>
    slave (i2cPort s') = slave (i2cPort s) \<and>
    i2caddr s' = i2caddr s"
proof -
  define response where "response = concat (map snd rounds)"
  from updateRandom32Bytes_returns [OF wch ch cap rnd] obtain r s'
    where u: "updateRandom32Bytes h debug s = Some (Inr (r, s'))"
    by blast
  from updateRandom32Bytes_Some [OF u] obtain wake_rounds' rounds'
    where wch': "chunked_reads (slave (i2cPort s)) (length (requests (i2cPort s))) 4 wake_rounds'"
      and ch': "chunked_reads (slave (i2cPort s)) (length (requests (i2cPort s)) + length wake_rounds')
        35 rounds'"
      and ib': "inputBuffer s' = concat (map snd rounds') @ replicate (length (inputBuffer s) - 35) 0"
      and cg: "countGlobal s' = 35"
      and r: "r = (inputBuffer s' ! 0 = 35 \<and>
         inputBuffer s' ! 33 = fst (spec_crc (take 33 (inputBuffer s'))) \<and>
         inputBuffer s' ! 34 = snd (spec_crc (take 33 (inputBuffer s'))))"
      and rb: "random32Bytes s' =
        (if r then take 32 (drop 1 (inputBuffer s')) @ drop 32 (random32Bytes s)
         else random32Bytes s)"
      and rq': "requests (i2cPort s') =
        requests (i2cPort s) @
        map (\<lambda>(amount, bytes). (i2caddr s, of_nat amount)) (wake_rounds' @ rounds')"
      and fr: "sent (i2cPort s') = sent (i2cPort s) @
        [(0x00, []),
         (i2caddr s, [WORD_ADDRESS_VALUE_COMMAND h, 0x07, COMMAND_OPCODE_RANDOM h, 0x00, 0x00, 0x00,
            fst (spec_crc [0x07, COMMAND_OPCODE_RANDOM h, 0x00, 0x00, 0x00]),
            snd (spec_crc [0x07, COMMAND_OPCODE_RANDOM h, 0x00, 0x00, 0x00])]),
         (i2caddr s, [WORD_ADDRESS_VALUE_IDLE h])]"
        "slave (i2cPort s') = slave (i2cPort s)" "i2caddr s' = i2caddr s"
    by blast
  have w: "wake_rounds' = wake_rounds"
    using wch' wch by (rule chunked_reads_unique)
  have same: "rounds' = rounds"
    using ch' ch unfolding w by (rule chunked_reads_unique)
  have len: "length response = 35"
    unfolding response_def using ch by (rule chunked_reads_total)
  have ib: "inputBuffer s' = response @ replicate (length (inputBuffer s) - 35) 0"
    using ib' by (simp add: same response_def)
  have n: "inputBuffer s' ! 0 = response ! 0" "inputBuffer s' ! 33 = response ! 33"
      "inputBuffer s' ! 34 = response ! 34" "take 33 (inputBuffer s') = take 33 response"
      "take 32 (drop 1 (inputBuffer s')) = take 32 (drop 1 response)"
    using len by (simp_all add: ib nth_append)
  have rq: "requests (i2cPort s') =
      requests (i2cPort s) @
      map (\<lambda>(amount, bytes). (i2caddr s, of_nat amount)) (wake_rounds @ rounds)"
    using rq' by (simp only: w same)
  define valid where "valid \<longleftrightarrow> response ! 0 = 35 \<and>
      response ! 33 = fst (spec_crc (take 33 response)) \<and>
      response ! 34 = snd (spec_crc (take 33 response))"
  have rv: "r = valid"
    using r unfolding n valid_def .
  have "updateRandom32Bytes h debug s = Some (Inr (valid, s'))"
    using u rv by simp
  moreover have "random32Bytes s' =
      (if valid then take 32 (drop 1 response) @ drop 32 (random32Bytes s) else random32Bytes s)"
    using rb unfolding n rv .
  ultimately show ?thesis
    unfolding response_def [symmetric] valid_def [symmetric] using ib cg rq fr by blast
qed

section \<open>The values of the accessors\<close>

lemma shift_and_byte: "push_bit 8 (w :: 'a::len word) AND ucast (b :: u8) = 0"
  by (rule bit_eqI) (auto simp: bit_and_iff bit_push_bit_iff bit_ucast_iff dest: bit_imp_le_length)

lemma shift_or_byte:
  "push_bit 8 (w :: 'a::len word) OR ucast (b :: u8) = push_bit 8 w + ucast b"
  using shift_and_byte [of w b] by (simp add: disjunctive_add_eq_or)

lemma unat_ucast_byte:
  assumes "8 \<le> LENGTH('a::len)"
  shows "unat (ucast (b :: u8) :: 'a word) = unat b"
proof -
  have "(2 :: nat) ^ 8 \<le> 2 ^ LENGTH('a)"
    using assms by (intro power_increasing) simp_all
  then have "unat b < 2 ^ LENGTH('a)"
    using u8_bound [of b] by simp
  then show ?thesis
    by (simp add: unsigned_ucast_eq take_bit_nat_eq_self)
qed

lemma unat_shift_or_byte:
  fixes w :: "'a::len word" and b :: u8
  assumes "8 \<le> LENGTH('a)" and "256 * unat w + 255 < 2 ^ LENGTH('a)"
  shows "unat (push_bit 8 w OR ucast b) = 256 * unat w + unat b"
proof -
  have b: "unat (ucast b :: 'a word) = unat b"
    using assms(1) by (rule unat_ucast_byte)
  have lt: "256 * unat w + unat b < 2 ^ LENGTH('a)"
    using assms(2) u8_bound [of b] by simp
  then have "256 * unat w < 2 ^ LENGTH('a)"
    by simp
  then have "take_bit LENGTH('a) (push_bit 8 (unat w)) = 256 * unat w"
    by (simp add: push_bit_eq_mult take_bit_nat_eq_self)
  then have "unat (push_bit 8 w) = 256 * unat w"
    by (simp only: unsigned_push_bit_eq)
  then have "unat (push_bit 8 w + ucast b) = 256 * unat w + unat b"
    using lt by (simp only: unat_word_ariths b) simp
  then show ?thesis
    by (simp only: shift_or_byte)
qed

lemma be16:
  fixes b0 b1 :: u8
  assumes "16 \<le> LENGTH('a::len)"
  shows "unat (push_bit 8 (ucast b0 :: 'a word) OR ucast b1) = 256 * unat b0 + unat b1"
proof -
  have "(2 :: nat) ^ 16 \<le> 2 ^ LENGTH('a)"
    using assms by (intro power_increasing) simp_all
  moreover have "unat (ucast b0 :: 'a word) = unat b0"
    using assms by (intro unat_ucast_byte) simp
  ultimately show ?thesis
    using assms u8_bound [of b0] by (subst unat_shift_or_byte) simp_all
qed

lemma be32:
  fixes b0 b1 b2 b3 :: u8
  assumes "32 \<le> LENGTH('a::len)"
  shows "unat (push_bit 8 (push_bit 8 (push_bit 8 (ucast b0 :: 'a word) OR ucast b1) OR ucast b2)
           OR ucast b3) =
         16777216 * unat b0 + 65536 * unat b1 + 256 * unat b2 + unat b3"
proof -
  have p: "(2 :: nat) ^ 32 \<le> 2 ^ LENGTH('a)"
    using assms by (intro power_increasing) simp_all
  have l: "8 \<le> LENGTH('a)"
    using assms by simp
  have u0: "unat (ucast b0 :: 'a word) = unat b0"
    using l by (rule unat_ucast_byte)
  note bd = u8_bound [of b0] u8_bound [of b1] u8_bound [of b2] u8_bound [of b3]
  have s1: "unat (push_bit 8 (ucast b0 :: 'a word) OR ucast b1) = 256 * unat b0 + unat b1"
  proof -
    have "256 * unat (ucast b0 :: 'a word) + 255 < 2 ^ LENGTH('a)"
      using p bd unfolding u0 by simp
    from unat_shift_or_byte [OF l this] show ?thesis
      unfolding u0 .
  qed
  have s2: "unat (push_bit 8 (push_bit 8 (ucast b0 :: 'a word) OR ucast b1) OR ucast b2) =
      256 * (256 * unat b0 + unat b1) + unat b2"
  proof -
    have "256 * unat (push_bit 8 (ucast b0 :: 'a word) OR ucast b1) + 255 < 2 ^ LENGTH('a)"
      using p bd unfolding s1 by simp
    from unat_shift_or_byte [OF l this] show ?thesis
      unfolding s1 .
  qed
  have s3: "unat (push_bit 8 (push_bit 8 (push_bit 8 (ucast b0 :: 'a word) OR ucast b1) OR ucast b2)
           OR ucast b3) = 256 * (256 * (256 * unat b0 + unat b1) + unat b2) + unat b3"
  proof -
    have "256 * unat (push_bit 8 (push_bit 8 (ucast b0 :: 'a word) OR ucast b1) OR ucast b2) + 255
        < 2 ^ LENGTH('a)"
      using p bd unfolding s2 by simp
    from unat_shift_or_byte [OF l this] show ?thesis
      unfolding s2 .
  qed
  show ?thesis
    unfolding s3 by simp
qed

lemma array_get_nat: "n < length xs \<Longrightarrow> array_get xs (int n) = Inr (xs ! n)"
  by (simp add: array_get_def)

lemma array_get_first: "1 \<le> length xs \<Longrightarrow> array_get xs 0 = Inr (xs ! 0)"
  by (simp add: array_get_def del: length_greater_0_conv)

lemma array_get_nat_Inr: "array_get xs (int n) = Inr b \<Longrightarrow> n < length xs"
  by (simp add: array_get_def split: if_splits)

lemma getRandomByte_eq:
  assumes "updateRandom32Bytes h debug s = Some (Inr (r, s1))" and "1 \<le> length (random32Bytes s1)"
  shows "getRandomByte h debug s = Some (Inr (random32Bytes s1 ! 0, s1))"
proof -
  have "array_get (random32Bytes s1) 0 = Inr (random32Bytes s1 ! 0)"
    using assms(2) by (rule array_get_first)
  then show ?thesis
    using assms(1) by (simp add: getRandomByte_def and_then_def)
qed

lemma getRandomInt_eq:
  assumes "updateRandom32Bytes h debug s = Some (Inr (r, s1))" and "2 \<le> length (random32Bytes s1)"
  shows "getRandomInt h debug s =
    Some (Inr (push_bit 8 (ucast (random32Bytes s1 ! 0)) OR ucast (random32Bytes s1 ! 1), s1))"
proof -
  have "array_get (random32Bytes s1) 0 = Inr (random32Bytes s1 ! 0)"
      "array_get (random32Bytes s1) 1 = Inr (random32Bytes s1 ! 1)"
    using array_get_first [of "random32Bytes s1"] array_get_nat [of 1 "random32Bytes s1"] assms(2)
    by simp_all
  then show ?thesis
    using assms(1) by (simp add: getRandomInt_def and_then_def Let_def del: push_bit_or)
qed

lemma getRandomLong_eq:
  assumes "updateRandom32Bytes h debug s = Some (Inr (r, s1))" and "4 \<le> length (random32Bytes s1)"
  shows "getRandomLong h debug s =
    Some (Inr (push_bit 8 (push_bit 8 (push_bit 8 (ucast (random32Bytes s1 ! 0))
        OR ucast (random32Bytes s1 ! 1)) OR ucast (random32Bytes s1 ! 2))
        OR ucast (random32Bytes s1 ! 3), s1))"
proof -
  have "array_get (random32Bytes s1) 0 = Inr (random32Bytes s1 ! 0)"
      "array_get (random32Bytes s1) 1 = Inr (random32Bytes s1 ! 1)"
      "array_get (random32Bytes s1) 2 = Inr (random32Bytes s1 ! 2)"
      "array_get (random32Bytes s1) 3 = Inr (random32Bytes s1 ! 3)"
    using array_get_first [of "random32Bytes s1"] array_get_nat [of 1 "random32Bytes s1"]
      array_get_nat [of 2 "random32Bytes s1"] array_get_nat [of 3 "random32Bytes s1"] assms(2)
    by simp_all
  then show ?thesis
    using assms(1) by (simp add: getRandomLong_def and_then_def Let_def del: push_bit_or)
qed

lemma getRandomByte_Some:
  assumes "getRandomByte h debug s = Some (Inr (v, s1))"
  shows "(\<exists>r. updateRandom32Bytes h debug s = Some (Inr (r, s1))) \<and> v = random32Bytes s1 ! 0"
proof -
  obtain r s0 where u: "updateRandom32Bytes h debug s = Some (Inr (r, s0))"
    using assms by (auto simp: getRandomByte_def split: option.splits sum.splits)
  obtain b0 where "array_get (random32Bytes s0) (int 0) = Inr b0"
    using assms u by (auto simp: getRandomByte_def and_then_def split: sum.splits)
  then have "1 \<le> length (random32Bytes s0)"
    using array_get_nat_Inr [of "random32Bytes s0" 0 b0] by (simp del: length_greater_0_conv)
  from getRandomByte_eq [OF u this] assms u show ?thesis
    by simp
qed

lemma getRandomInt_Some:
  fixes v :: "'a::len word"
  assumes "getRandomInt h debug s = Some (Inr (v, s1))"
  shows "(\<exists>r. updateRandom32Bytes h debug s = Some (Inr (r, s1))) \<and>
    v = push_bit 8 (ucast (random32Bytes s1 ! 0)) OR ucast (random32Bytes s1 ! 1)"
proof -
  obtain r s0 where u: "updateRandom32Bytes h debug s = Some (Inr (r, s0))"
    using assms by (auto simp: getRandomInt_def split: option.splits sum.splits)
  obtain b1 where "array_get (random32Bytes s0) (int 1) = Inr b1"
    using assms u
    by (auto simp: getRandomInt_def and_then_def Let_def split: sum.splits simp del: push_bit_or)
  then have "2 \<le> length (random32Bytes s0)"
    using array_get_nat_Inr [of "random32Bytes s0" 1 b1] by simp
  from getRandomInt_eq [OF u this, where 'a = 'a] assms u show ?thesis
    by simp
qed

lemma getRandomLong_Some:
  fixes v :: "'a::len word"
  assumes "getRandomLong h debug s = Some (Inr (v, s1))"
  shows "(\<exists>r. updateRandom32Bytes h debug s = Some (Inr (r, s1))) \<and>
    v = push_bit 8 (push_bit 8 (push_bit 8 (ucast (random32Bytes s1 ! 0))
        OR ucast (random32Bytes s1 ! 1)) OR ucast (random32Bytes s1 ! 2))
        OR ucast (random32Bytes s1 ! 3)"
proof -
  obtain r s0 where u: "updateRandom32Bytes h debug s = Some (Inr (r, s0))"
    using assms by (auto simp: getRandomLong_def split: option.splits sum.splits)
  obtain b3 where "array_get (random32Bytes s0) (int 3) = Inr b3"
    using assms u
    by (auto simp: getRandomLong_def and_then_def Let_def split: sum.splits simp del: push_bit_or)
  then have "4 \<le> length (random32Bytes s0)"
    using array_get_nat_Inr [of "random32Bytes s0" 3 b3] by simp
  from getRandomLong_eq [OF u this, where 'a = 'a] assms u show ?thesis
    by simp
qed

section \<open>Calls that do not fetch leave the random buffer alone\<close>










section \<open>The claim about the wake-up\<close>

text \<open>
  Claim C4. By the comments of the source, \<open>wakeUp\<close> returns true when the device
  answers with the message 0x04, 0x11, 0x33, 0x44. It does not: the count check passes,
  the checksum that \<open>checkCrc\<close> computes over 0x04, 0x11 is 0x33, 0x43, the last byte
  0x44 of the message differs from 0x43, and \<open>wakeUp\<close> returns false. On the message
  0x04, 0x11, 0x33, 0x43 it returns true. The verdict of \<open>wakeUp\<close> on every
  acknowledgement is lemma \<open>wakeUp_decides\<close>.
\<close>

theorem wakeUp_rejects_documented_ack:
  "map_option (map_sum id fst) (wakeUp (fixture 35 (script [[0x04, 0x11, 0x33, 0x44]]))) =
     Some (Inr False) \<and>
   map_option (map_sum id (take 4 \<circ> inputBuffer \<circ> snd))
       (wakeUp (fixture 35 (script [[0x04, 0x11, 0x33, 0x44]]))) =
     Some (Inr [0x04, 0x11, 0x33, 0x44]) \<and>
   map_option (map_sum id (countGlobal \<circ> snd))
       (wakeUp (fixture 35 (script [[0x04, 0x11, 0x33, 0x44]]))) = Some (Inr 4) \<and>
   map_option (map_sum id (crc \<circ> snd))
       (wakeUp (fixture 35 (script [[0x04, 0x11, 0x33, 0x44]]))) = Some (Inr (0x33, 0x43)) \<and>
   map_option (map_sum id fst) (wakeUp (fixture 35 (script [[0x04, 0x11, 0x33, 0x43]]))) =
     Some (Inr True)"
proof -
  have f: "chunked_reads (slave (i2cPort (fixture 35 (script [reply]))))
        (length (requests (i2cPort (fixture 35 (script [reply]))))) 4 [(4, reply)]"
      "4 \<le> length (inputBuffer (fixture 35 (script [reply])))"
    if "length reply = 4" for reply
    using that by (simp_all add: fixture_def fixture_port_def script_def)
  have bad: "length [0x04, 0x11, 0x33, 0x44 :: u8] = 4" and good: "length [0x04, 0x11, 0x33, 0x43 :: u8] = 4"
    by simp_all
  from wakeUp_decides [OF f [OF bad]] obtain s1
    where "wakeUp (fixture 35 (script [[0x04, 0x11, 0x33, 0x44]])) = Some (Inr (False, s1))"
      and "inputBuffer s1 = [0x04, 0x11, 0x33, 0x44] @ replicate 31 0"
      and "countGlobal s1 = 4" and "crc s1 = (0x33, 0x43)"
    by (auto simp: wake_vector fixture_def)
  moreover from wakeUp_decides [OF f [OF good]] obtain s2
    where "wakeUp (fixture 35 (script [[0x04, 0x11, 0x33, 0x43]])) = Some (Inr (True, s2))"
    by (auto simp: wake_vector)
  ultimately show ?thesis
    by simp
qed

section \<open>The claims about the reception\<close>

text \<open>
  Claim C7. Every call of \<open>receiveResponseData\<close> that returns has gone through a list
  of rounds as specified: each round requested 32 bytes when more than 32 remained and
  the remainder otherwise (so never more than 32), got at most that many bytes from the
  device, and reduced the remaining length by the number of bytes it got; the requests
  are logged in that order; the bytes of the rounds are in the buffer in arrival
  order, followed by zeros; their number is exactly the requested length, which is the
  final value of the counter; and a length above 32 took at least two rounds. The call
  does return whenever such a list of rounds exists for the answers of the device and
  the requested length fits the buffer.
\<close>

theorem receiveResponseData_chunked:
  "(receiveResponseData len debug s = Some (Inr (r, s')) \<longrightarrow>
      (\<exists>rounds.
         chunked_reads (slave (i2cPort s)) (length (requests (i2cPort s))) (unat len) rounds \<and>
         (\<forall>(amount, bytes) \<in> set rounds. 0 < amount \<and> amount \<le> 32 \<and> length bytes \<le> amount) \<and>
         requests (i2cPort s') =
           requests (i2cPort s) @ map (\<lambda>(amount, bytes). (i2caddr s, of_nat amount)) rounds \<and>
         inputBuffer s' =
           concat (map snd rounds) @ replicate (length (inputBuffer s) - unat len) 0 \<and>
         length (concat (map snd rounds)) = unat len \<and>
         unat len \<le> length (inputBuffer s) \<and>
         countGlobal s' = len \<and>
         (32 < unat len \<longrightarrow> 2 \<le> length rounds))) \<and>
   (chunked_reads (slave (i2cPort s)) (length (requests (i2cPort s))) (unat len) rounds0 \<and>
    unat len \<le> length (inputBuffer s) \<longrightarrow>
      (\<exists>s1. receiveResponseData len debug s = Some (Inr (True, s1))))"
proof (intro conjI impI)
  assume "receiveResponseData len debug s = Some (Inr (r, s'))"
  then obtain rounds where rec: "reception len
      (s\<lparr>countGlobal := 0, inputBuffer := replicate (length (inputBuffer s)) 0\<rparr>) rounds s'"
    using receiveResponseData_Some by blast
  then have ch: "chunked_reads (slave (i2cPort s)) (length (requests (i2cPort s))) (unat len) rounds"
    by (simp add: reception_def)
  have fit: "unat len \<le> length (inputBuffer s)"
    using rec by (auto simp: reception_def)
  have "chunked_reads (slave (i2cPort s)) (length (requests (i2cPort s))) (unat len) rounds \<and>
     (\<forall>(amount, bytes) \<in> set rounds. 0 < amount \<and> amount \<le> 32 \<and> length bytes \<le> amount) \<and>
     requests (i2cPort s') =
       requests (i2cPort s) @ map (\<lambda>(amount, bytes). (i2caddr s, of_nat amount)) rounds \<and>
     inputBuffer s' =
       concat (map snd rounds) @ replicate (length (inputBuffer s) - unat len) 0 \<and>
     length (concat (map snd rounds)) = unat len \<and>
     unat len \<le> length (inputBuffer s) \<and>
     countGlobal s' = len \<and>
     (32 < unat len \<longrightarrow> 2 \<le> length rounds)"
    using ch chunked_reads_bounds [OF ch] chunked_reads_total [OF ch] chunked_reads_two [OF ch]
      rec fit
    by (simp add: reception_def)
  then show "\<exists>rounds.
     chunked_reads (slave (i2cPort s)) (length (requests (i2cPort s))) (unat len) rounds \<and>
     (\<forall>(amount, bytes) \<in> set rounds. 0 < amount \<and> amount \<le> 32 \<and> length bytes \<le> amount) \<and>
     requests (i2cPort s') =
       requests (i2cPort s) @ map (\<lambda>(amount, bytes). (i2caddr s, of_nat amount)) rounds \<and>
     inputBuffer s' =
       concat (map snd rounds) @ replicate (length (inputBuffer s) - unat len) 0 \<and>
     length (concat (map snd rounds)) = unat len \<and>
     unat len \<le> length (inputBuffer s) \<and>
     countGlobal s' = len \<and>
     (32 < unat len \<longrightarrow> 2 \<le> length rounds)" ..
next
  assume "chunked_reads (slave (i2cPort s)) (length (requests (i2cPort s))) (unat len) rounds0 \<and>
    unat len \<le> length (inputBuffer s)"
  then show "\<exists>s1. receiveResponseData len debug s = Some (Inr (True, s1))"
    using receiveResponseData_returns by blast
qed

theorem receiveResponseData_chunked_witness:
  "chunked_reads
     (slave (i2cPort (fixture 35 (script [take 32 random_response, drop 32 random_response]))))
     (length (requests (i2cPort (fixture 35 (script [take 32 random_response, drop 32 random_response])))))
     (unat (35 :: u8)) [(32, take 32 random_response), (3, drop 32 random_response)] \<and>
   unat (35 :: u8)
     \<le> length (inputBuffer (fixture 35 (script [take 32 random_response, drop 32 random_response]))) \<and>
   (\<exists>s'. receiveResponseData 35 False
            (fixture 35 (script [take 32 random_response, drop 32 random_response])) =
          Some (Inr (True, s')) \<and>
        requests (i2cPort s') = [(0x60, 32), (0x60, 3)] \<and>
        inputBuffer s' = random_response \<and>
        countGlobal s' = 35)"
proof -
  define S where "S = fixture 35 (script [take 32 random_response, drop 32 random_response])"
  define plan where "plan = [(32 :: nat, take 32 random_response), (3, drop 32 random_response)]"
  have f: "slave (i2cPort S) = script [take 32 random_response, drop 32 random_response]"
      "requests (i2cPort S) = []" "length (inputBuffer S) = 35" "i2caddr S = 0x60"
    by (simp_all add: S_def fixture_def fixture_port_def)
  have ch: "chunked_reads (slave (i2cPort S)) (length (requests (i2cPort S))) (unat (35 :: u8)) plan"
    by (simp add: f plan_def script_def random_response_length)
  have fit: "unat (35 :: u8) \<le> length (inputBuffer S)"
    by (simp add: f)
  note inst = receiveResponseData_chunked [of 35 False S]
  from inst [of _ _ plan] ch fit obtain s1
    where s1: "receiveResponseData 35 False S = Some (Inr (True, s1))"
    by blast
  from inst [of True s1] s1 obtain rounds
    where rounds: "chunked_reads (slave (i2cPort S)) (length (requests (i2cPort S))) (unat (35 :: u8)) rounds"
      and rq: "requests (i2cPort s1) =
        requests (i2cPort S) @ map (\<lambda>(amount, bytes). (i2caddr S, of_nat amount)) rounds"
      and ib: "inputBuffer s1 = concat (map snd rounds) @ replicate (length (inputBuffer S) - unat (35 :: u8)) 0"
      and cg: "countGlobal s1 = 35"
    by blast
  have "rounds = plan"
    using rounds ch by (rule chunked_reads_unique)
  then have "requests (i2cPort s1) = [(0x60, 32), (0x60, 3)]" "inputBuffer s1 = random_response"
    using rq ib by (simp_all add: f plan_def)
  with s1 cg ch fit show ?thesis
    unfolding S_def plan_def by blast
qed

text \<open>
  Claim C9. A call of \<open>receiveResponseData\<close> that returns, returns true, whatever was
  received (within the model it can otherwise only end in an out-of-bounds access); so
  a caller's branch for the result false is dead: with any code in that branch the
  caller behaves as without the test.
\<close>

theorem receiveResponseData_never_false:
  "(receiveResponseData len debug s = Some y \<longrightarrow>
      y = Inl OutOfBounds \<or> (\<exists>s'. y = Inr (True, s'))) \<and>
   and_then (receiveResponseData len debug s)
     (\<lambda>(r, s1). if r = False then failure s1 else continue s1) =
   and_then (receiveResponseData len debug s) (\<lambda>(r, s1). continue s1)"
proof -
  have a: "receiveResponseData len debug s = Some y \<Longrightarrow>
      y = Inl OutOfBounds \<or> (\<exists>s'. y = Inr (True, s'))" for y
    unfolding receiveResponseData_def Let_def
    by (auto split: option.splits sum.splits) (metis fault.exhaust)
  then show ?thesis
    by (cases "receiveResponseData len debug s") (auto simp: and_then_def split: sum.splits)
qed

theorem receiveResponseData_never_false_witness:
  "(\<exists>s'. receiveResponseData 4 False (fixture 4 (script [[0xFF, 0xFF, 0xFF, 0xFF]])) =
      Some (Inr (True, s'))) \<and>
   and_then (receiveResponseData 4 False (fixture 4 (script [[0xFF, 0xFF, 0xFF, 0xFF]])))
     (\<lambda>(r, s1). if r = False then Some (Inr (False, s1)) else Some (Inr (True, s1))) =
   and_then (receiveResponseData 4 False (fixture 4 (script [[0xFF, 0xFF, 0xFF, 0xFF]])))
     (\<lambda>(r, s1). Some (Inr (True, s1)))"
proof -
  define S where "S = fixture 4 (script [[0xFF, 0xFF, 0xFF, 0xFF]])"
  have "chunked_reads (slave (i2cPort S)) (length (requests (i2cPort S))) (unat (4 :: u8))
      [(4, [0xFF, 0xFF, 0xFF, 0xFF])]"
    by (simp add: S_def fixture_def fixture_port_def script_def)
  moreover have "unat (4 :: u8) \<le> length (inputBuffer S)"
    by (simp add: S_def fixture_def)
  ultimately obtain s1 where s1: "receiveResponseData 4 False S = Some (Inr (True, s1))"
    using receiveResponseData_returns by blast
  note inst = receiveResponseData_never_false [of 4 False S "Inr (True, s1)"
      "\<lambda>s1. Some (Inr (False, s1))" "\<lambda>s1. Some (Inr (True, s1))"]
  from inst s1 show ?thesis
    unfolding S_def by blast
qed

section \<open>The claims about the random fetch\<close>

lemma command_vector: "spec_crc [0x07, 0x1B, 0x00, 0x00, 0x00] = (0x24, 0xCD)"
  by code_simp

lemma second_vector: "spec_crc (take 33 second_response) = (0xDC, 0x60)"
  unfolding second_response_def fresh32_def by code_simp


lemma response_bytes:
  "random_response ! 0 = 35" "random_response ! 33 = 0x5C" "random_response ! 34 = 0xEE"
  "length random_response = 35" "take 32 (drop 1 random_response) = data32"
  "take 32 (drop (Suc 0) random_response) = data32"
  "second_response ! 0 = 35" "second_response ! 33 = 0xDC" "second_response ! 34 = 0x60"
  "length second_response = 35" "take 32 (drop 1 second_response) = fresh32"
  "take 32 (drop (Suc 0) second_response) = fresh32"
  "bad_response ! 0 = 35" "bad_response ! 33 = 0x00" "bad_response ! 34 = 0x00"
  "length bad_response = 35"
  "length data32 = 32" "length fresh32 = 32" "length wake_ack = 4"
  by (simp_all add: random_response_def second_response_def bad_response_def data32_def
      fresh32_def wake_ack_def nth_append)


lemma response_data:
  "random_response ! 1 = 1" "random_response ! 2 = 2" "random_response ! 3 = 3"
  "random_response ! 4 = 4" "random_response ! Suc 0 = 1"
  "second_response ! 1 = 0x21" "second_response ! 2 = 0x22" "second_response ! 3 = 0x23"
  "second_response ! 4 = 0x24" "second_response ! Suc 0 = 0x21"
  by (simp_all add: random_response_def second_response_def data32_def fresh32_def nth_append)

lemma scripted_fixture:
  "slave (i2cPort (fixture 35 (script replies))) = script replies"
  "requests (i2cPort (fixture 35 (script replies))) = []"
  "sent (i2cPort (fixture 35 (script replies))) = []"
  "i2caddr (fixture 35 (script replies)) = 0x60"
  "length (inputBuffer (fixture 35 (script replies))) = 35"
  "random32Bytes (fixture 35 (script replies)) = replicate 32 0"
  by (simp_all add: fixture_def fixture_port_def)

lemma scripted_rounds:
  assumes "slave (i2cPort s) = script replies" and "length (requests (i2cPort s)) = k"
    and "k + 2 < length replies" and "replies ! k = wake"
    and "replies ! (k + 1) = take 32 response" and "replies ! (k + 2) = drop 32 response"
    and "length wake = 4" and "length response = 35"
  shows "chunked_reads (slave (i2cPort s)) (length (requests (i2cPort s))) 4 [(4, wake)]"
    and "chunked_reads (slave (i2cPort s)) (length (requests (i2cPort s)) + length [(4 :: nat, wake)]) 35
      [(32, take 32 response), (3, drop 32 response)]"
  using assms by (simp_all add: script_def)

text \<open>
  Claim C8. A call of \<open>updateRandom32Bytes\<close> that returns has sent the wake pulse and
  the 7-byte random command with its checksum to the device, has read from the device a
  4-byte wake acknowledgement and then a 35-byte response, in requests of at most 32
  bytes, and has sent the idle byte. It returns true exactly when the count check and
  the checksum check pass on that response, and then the first 32 positions of the
  random buffer (all of it, for the 32-byte buffer of the data model) hold the bytes at
  positions 1 to 32 of the response; the count byte at position 0 is skipped. An
  accessor that returns has run this fetch, nothing is kept from an earlier call: its
  final state is that of the fetch, and it returns the first byte of the random buffer
  (\<open>getRandomByte\<close>), the first 2 bytes as a big-endian 16-bit number
  (\<open>getRandomInt\<close>, for an \<open>int\<close> of at least 16 bits) or the first 4 bytes as a
  big-endian 32-bit number (\<open>getRandomLong\<close>, for a \<open>long\<close> of at least 32 bits),
  the number being the bits of the result read as unsigned. Whenever the device
  delivers a wake acknowledgement and a 35-byte response with the right count and
  checksum, and the buffers have room, the fetch does return true and the accessors
  return the values built from the bytes 1 to 4 of that response.
\<close>

theorem random_fetch_and_accessors:
  fixes vi :: "'a::len word" and vl :: "'b::len word"
  shows
  "(updateRandom32Bytes h debug s = Some (Inr (r, s')) \<longrightarrow>
      (\<exists>wake_rounds rounds.
         chunked_reads (slave (i2cPort s)) (length (requests (i2cPort s))) 4 wake_rounds \<and>
         chunked_reads (slave (i2cPort s)) (length (requests (i2cPort s)) + length wake_rounds) 35
           rounds \<and>
         requests (i2cPort s') =
           requests (i2cPort s) @
           map (\<lambda>(amount, bytes). (i2caddr s, of_nat amount)) (wake_rounds @ rounds) \<and>
         sent (i2cPort s') = sent (i2cPort s) @
           [(0x00, []),
            (i2caddr s, [WORD_ADDRESS_VALUE_COMMAND h, 0x07, COMMAND_OPCODE_RANDOM h, 0x00, 0x00, 0x00,
               fst (spec_crc [0x07, COMMAND_OPCODE_RANDOM h, 0x00, 0x00, 0x00]),
               snd (spec_crc [0x07, COMMAND_OPCODE_RANDOM h, 0x00, 0x00, 0x00])]),
            (i2caddr s, [WORD_ADDRESS_VALUE_IDLE h])] \<and>
         slave (i2cPort s') = slave (i2cPort s) \<and>
         i2caddr s' = i2caddr s \<and>
         length (concat (map snd rounds)) = 35 \<and>
         inputBuffer s' = concat (map snd rounds) @ replicate (length (inputBuffer s) - 35) 0 \<and>
         r = (inputBuffer s' ! 0 = 35 \<and>
              inputBuffer s' ! 33 = fst (spec_crc (take 33 (inputBuffer s'))) \<and>
              inputBuffer s' ! 34 = snd (spec_crc (take 33 (inputBuffer s')))) \<and>
         (r \<longrightarrow> 32 \<le> length (random32Bytes s) \<and>
            random32Bytes s' =
              take 32 (drop 1 (inputBuffer s')) @ drop 32 (random32Bytes s)))) \<and>
   (getRandomByte h debug s = Some (Inr (vb, sb)) \<longrightarrow>
      (\<exists>r. updateRandom32Bytes h debug s = Some (Inr (r, sb))) \<and>
      vb = random32Bytes sb ! 0) \<and>
   (getRandomInt h debug s = Some (Inr (vi, si)) \<and> 16 \<le> LENGTH('a) \<longrightarrow>
      (\<exists>r. updateRandom32Bytes h debug s = Some (Inr (r, si))) \<and>
      unat vi = 256 * unat (random32Bytes si ! 0) + unat (random32Bytes si ! 1)) \<and>
   (getRandomLong h debug s = Some (Inr (vl, sl)) \<and> 32 \<le> LENGTH('b) \<longrightarrow>
      (\<exists>r. updateRandom32Bytes h debug s = Some (Inr (r, sl))) \<and>
      unat vl = 16777216 * unat (random32Bytes sl ! 0) + 65536 * unat (random32Bytes sl ! 1) +
                256 * unat (random32Bytes sl ! 2) + unat (random32Bytes sl ! 3)) \<and>
   (let response = concat (map snd plan) in
    chunked_reads (slave (i2cPort s)) (length (requests (i2cPort s))) 4 wake_plan \<and>
    chunked_reads (slave (i2cPort s)) (length (requests (i2cPort s)) + length wake_plan) 35
      plan \<and>
    35 \<le> length (inputBuffer s) \<and> length (random32Bytes s) = 32 \<and>
    response ! 0 = 35 \<and>
    response ! 33 = fst (spec_crc (take 33 response)) \<and>
    response ! 34 = snd (spec_crc (take 33 response)) \<longrightarrow>
      (\<exists>s1. updateRandom32Bytes h debug s = Some (Inr (True, s1)) \<and>
         random32Bytes s1 = take 32 (drop 1 response) \<and>
         getRandomByte h debug s = Some (Inr (response ! 1, s1)) \<and>
         (\<exists>v :: 'a word. getRandomInt h debug s = Some (Inr (v, s1)) \<and>
            (16 \<le> LENGTH('a) \<longrightarrow> unat v = 256 * unat (response ! 1) + unat (response ! 2))) \<and>
         (\<exists>v :: 'b word. getRandomLong h debug s = Some (Inr (v, s1)) \<and>
            (32 \<le> LENGTH('b) \<longrightarrow>
               unat v = 16777216 * unat (response ! 1) + 65536 * unat (response ! 2) +
                        256 * unat (response ! 3) + unat (response ! 4)))))"
proof (intro conjI impI)
  assume u: "updateRandom32Bytes h debug s = Some (Inr (r, s'))"
  from updateRandom32Bytes_Some [OF u] obtain wake_rounds rounds
    where "chunked_reads (slave (i2cPort s)) (length (requests (i2cPort s))) 4 wake_rounds"
      and "chunked_reads (slave (i2cPort s)) (length (requests (i2cPort s)) + length wake_rounds) 35
        rounds"
      and "requests (i2cPort s') =
        requests (i2cPort s) @
        map (\<lambda>(amount, bytes). (i2caddr s, of_nat amount)) (wake_rounds @ rounds)"
      and "sent (i2cPort s') = sent (i2cPort s) @
        [(0x00, []),
         (i2caddr s, [WORD_ADDRESS_VALUE_COMMAND h, 0x07, COMMAND_OPCODE_RANDOM h, 0x00, 0x00, 0x00,
            fst (spec_crc [0x07, COMMAND_OPCODE_RANDOM h, 0x00, 0x00, 0x00]),
            snd (spec_crc [0x07, COMMAND_OPCODE_RANDOM h, 0x00, 0x00, 0x00])]),
         (i2caddr s, [WORD_ADDRESS_VALUE_IDLE h])]"
      and "slave (i2cPort s') = slave (i2cPort s)" and "i2caddr s' = i2caddr s"
      and "length (concat (map snd rounds)) = 35"
      and "inputBuffer s' = concat (map snd rounds) @ replicate (length (inputBuffer s) - 35) 0"
      and "r = (inputBuffer s' ! 0 = 35 \<and>
         inputBuffer s' ! 33 = fst (spec_crc (take 33 (inputBuffer s'))) \<and>
         inputBuffer s' ! 34 = snd (spec_crc (take 33 (inputBuffer s'))))"
      and rb: "random32Bytes s' =
        (if r then take 32 (drop 1 (inputBuffer s')) @ drop 32 (random32Bytes s)
         else random32Bytes s)"
      and big: "r \<longrightarrow> 32 \<le> length (random32Bytes s)"
    by blast
  moreover have "r \<longrightarrow> 32 \<le> length (random32Bytes s) \<and>
      random32Bytes s' = take 32 (drop 1 (inputBuffer s')) @ drop 32 (random32Bytes s)"
    using rb big by simp
  ultimately show "\<exists>wake_rounds rounds.
         chunked_reads (slave (i2cPort s)) (length (requests (i2cPort s))) 4 wake_rounds \<and>
         chunked_reads (slave (i2cPort s)) (length (requests (i2cPort s)) + length wake_rounds) 35
           rounds \<and>
         requests (i2cPort s') =
           requests (i2cPort s) @
           map (\<lambda>(amount, bytes). (i2caddr s, of_nat amount)) (wake_rounds @ rounds) \<and>
         sent (i2cPort s') = sent (i2cPort s) @
           [(0x00, []),
            (i2caddr s, [WORD_ADDRESS_VALUE_COMMAND h, 0x07, COMMAND_OPCODE_RANDOM h, 0x00, 0x00, 0x00,
               fst (spec_crc [0x07, COMMAND_OPCODE_RANDOM h, 0x00, 0x00, 0x00]),
               snd (spec_crc [0x07, COMMAND_OPCODE_RANDOM h, 0x00, 0x00, 0x00])]),
            (i2caddr s, [WORD_ADDRESS_VALUE_IDLE h])] \<and>
         slave (i2cPort s') = slave (i2cPort s) \<and>
         i2caddr s' = i2caddr s \<and>
         length (concat (map snd rounds)) = 35 \<and>
         inputBuffer s' = concat (map snd rounds) @ replicate (length (inputBuffer s) - 35) 0 \<and>
         r = (inputBuffer s' ! 0 = 35 \<and>
              inputBuffer s' ! 33 = fst (spec_crc (take 33 (inputBuffer s'))) \<and>
              inputBuffer s' ! 34 = snd (spec_crc (take 33 (inputBuffer s')))) \<and>
         (r \<longrightarrow> 32 \<le> length (random32Bytes s) \<and>
            random32Bytes s' =
              take 32 (drop 1 (inputBuffer s')) @ drop 32 (random32Bytes s))"
    by blast
next
  assume "getRandomByte h debug s = Some (Inr (vb, sb))"
  from getRandomByte_Some [OF this]
  show "\<exists>r. updateRandom32Bytes h debug s = Some (Inr (r, sb))" and "vb = random32Bytes sb ! 0"
    by simp_all
next
  assume a: "getRandomInt h debug s = Some (Inr (vi, si)) \<and> 16 \<le> LENGTH('a)"
  then have g: "getRandomInt h debug s = Some (Inr (vi, si))" and w: "16 \<le> LENGTH('a)"
    by simp_all
  from getRandomInt_Some [OF g]
  show "\<exists>r. updateRandom32Bytes h debug s = Some (Inr (r, si))"
    by simp
  from getRandomInt_Some [OF g]
  show "unat vi = 256 * unat (random32Bytes si ! 0) + unat (random32Bytes si ! 1)"
    using be16 [OF w, of "random32Bytes si ! 0" "random32Bytes si ! 1"] by (simp only:)
next
  assume a: "getRandomLong h debug s = Some (Inr (vl, sl)) \<and> 32 \<le> LENGTH('b)"
  then have g: "getRandomLong h debug s = Some (Inr (vl, sl))" and w: "32 \<le> LENGTH('b)"
    by simp_all
  from getRandomLong_Some [OF g]
  show "\<exists>r. updateRandom32Bytes h debug s = Some (Inr (r, sl))"
    by simp
  from getRandomLong_Some [OF g]
  show "unat vl = 16777216 * unat (random32Bytes sl ! 0) + 65536 * unat (random32Bytes sl ! 1) +
                256 * unat (random32Bytes sl ! 2) + unat (random32Bytes sl ! 3)"
    using be32 [OF w, of "random32Bytes sl ! 0" "random32Bytes sl ! 1" "random32Bytes sl ! 2"
        "random32Bytes sl ! 3"]
    by (simp only:)
next
  define response where "response = concat (map snd plan)"
  have "\<exists>s1. updateRandom32Bytes h debug s = Some (Inr (True, s1)) \<and>
         random32Bytes s1 = take 32 (drop 1 response) \<and>
         getRandomByte h debug s = Some (Inr (response ! 1, s1)) \<and>
         (\<exists>v :: 'a word. getRandomInt h debug s = Some (Inr (v, s1)) \<and>
            (16 \<le> LENGTH('a) \<longrightarrow> unat v = 256 * unat (response ! 1) + unat (response ! 2))) \<and>
         (\<exists>v :: 'b word. getRandomLong h debug s = Some (Inr (v, s1)) \<and>
            (32 \<le> LENGTH('b) \<longrightarrow>
               unat v = 16777216 * unat (response ! 1) + 65536 * unat (response ! 2) +
                        256 * unat (response ! 3) + unat (response ! 4)))"
    if wch: "chunked_reads (slave (i2cPort s)) (length (requests (i2cPort s))) 4 wake_plan"
      and ch: "chunked_reads (slave (i2cPort s)) (length (requests (i2cPort s)) + length wake_plan) 35
        plan"
      and cap: "35 \<le> length (inputBuffer s)" and len: "length (random32Bytes s) = 32"
      and valid: "response ! 0 = 35 \<and>
        response ! 33 = fst (spec_crc (take 33 response)) \<and>
        response ! 34 = snd (spec_crc (take 33 response))"
  proof -
    have rnd: "32 \<le> length (random32Bytes s)"
      using len by simp
    from updateRandom32Bytes_decides [OF wch ch cap rnd, of h debug, folded response_def] valid len
    obtain s1 where u: "updateRandom32Bytes h debug s = Some (Inr (True, s1))"
      and rb: "random32Bytes s1 = take 32 (drop 1 response)"
      by auto
    have tot: "length response = 35"
      unfolding response_def using ch by (rule chunked_reads_total)
    have l: "1 \<le> length (random32Bytes s1)" "2 \<le> length (random32Bytes s1)"
        "4 \<le> length (random32Bytes s1)"
      using tot by (simp_all add: rb)
    have pick: "random32Bytes s1 ! k = response ! Suc k" if "k < 32" for k
      using that tot by (simp add: rb)
    have n0: "random32Bytes s1 ! 0 = response ! 1"
      using pick [of 0] by simp
    have n1: "random32Bytes s1 ! 1 = response ! 2"
      using pick [of 1] by (simp add: numeral_2_eq_2)
    have n2: "random32Bytes s1 ! 2 = response ! 3"
      using pick [of 2] by simp
    have n3: "random32Bytes s1 ! 3 = response ! 4"
      using pick [of 3] by simp
    note n = n0 n1 n2 n3
    note gb = getRandomByte_eq [OF u l(1), unfolded n]
    note gi = getRandomInt_eq [OF u l(2), where 'a = 'a, unfolded n]
    note gl = getRandomLong_eq [OF u l(3), where 'a = 'b, unfolded n]
    have vi: "16 \<le> LENGTH('a) \<longrightarrow>
        unat (push_bit 8 (ucast (response ! 1) :: 'a word) OR ucast (response ! 2)) =
        256 * unat (response ! 1) + unat (response ! 2)"
      using be16 [where 'a = 'a] by blast
    have vl: "32 \<le> LENGTH('b) \<longrightarrow>
        unat (push_bit 8 (push_bit 8 (push_bit 8 (ucast (response ! 1) :: 'b word)
          OR ucast (response ! 2)) OR ucast (response ! 3)) OR ucast (response ! 4)) =
        16777216 * unat (response ! 1) + 65536 * unat (response ! 2) +
          256 * unat (response ! 3) + unat (response ! 4)"
      using be32 [where 'a = 'b] by blast
    from u rb gb gi gl vi vl show ?thesis
      by blast
  qed
  then show "let response = concat (map snd plan) in
    chunked_reads (slave (i2cPort s)) (length (requests (i2cPort s))) 4 wake_plan \<and>
    chunked_reads (slave (i2cPort s)) (length (requests (i2cPort s)) + length wake_plan) 35
      plan \<and>
    35 \<le> length (inputBuffer s) \<and> length (random32Bytes s) = 32 \<and>
    response ! 0 = 35 \<and>
    response ! 33 = fst (spec_crc (take 33 response)) \<and>
    response ! 34 = snd (spec_crc (take 33 response)) \<longrightarrow>
      (\<exists>s1. updateRandom32Bytes h debug s = Some (Inr (True, s1)) \<and>
         random32Bytes s1 = take 32 (drop 1 response) \<and>
         getRandomByte h debug s = Some (Inr (response ! 1, s1)) \<and>
         (\<exists>v :: 'a word. getRandomInt h debug s = Some (Inr (v, s1)) \<and>
            (16 \<le> LENGTH('a) \<longrightarrow> unat v = 256 * unat (response ! 1) + unat (response ! 2))) \<and>
         (\<exists>v :: 'b word. getRandomLong h debug s = Some (Inr (v, s1)) \<and>
            (32 \<le> LENGTH('b) \<longrightarrow>
               unat v = 16777216 * unat (response ! 1) + 65536 * unat (response ! 2) +
                        256 * unat (response ! 3) + unat (response ! 4))))"
    unfolding Let_def response_def by blast
qed

theorem random_fetch_and_accessors_witness:
  "\<exists>s1 s2.
     updateRandom32Bytes datasheet_macros False two_fetches = Some (Inr (True, s1)) \<and>
     random32Bytes s1 = data32 \<and>
     requests (i2cPort s1) = [(0x60, 4), (0x60, 32), (0x60, 3)] \<and>
     sent (i2cPort s1) =
       [(0x00, []), (0x60, [0x03, 0x07, 0x1B, 0x00, 0x00, 0x00, 0x24, 0xCD]), (0x60, [0x02])] \<and>
     getRandomByte datasheet_macros False two_fetches = Some (Inr (0x01, s1)) \<and>
     (\<exists>vi :: 16 word.
        getRandomInt datasheet_macros False two_fetches = Some (Inr (vi, s1)) \<and> unat vi = 0x0102) \<and>
     (\<exists>vl :: 32 word.
        getRandomLong datasheet_macros False two_fetches = Some (Inr (vl, s1)) \<and>
        unat vl = 0x01020304) \<and>
     getRandomByte datasheet_macros False s1 = Some (Inr (0x21, s2)) \<and>
     random32Bytes s2 = fresh32 \<and>
     requests (i2cPort s2) =
       [(0x60, 4), (0x60, 32), (0x60, 3), (0x60, 4), (0x60, 32), (0x60, 3)]"
proof -
  define replies where "replies =
     [wake_ack, take 32 random_response, drop 32 random_response,
      wake_ack, take 32 second_response, drop 32 second_response]"
  define S where "S = fixture 35 (script replies)"
  define M where "M = datasheet_macros"
  define plan1 where "plan1 = [(32 :: nat, take 32 random_response), (3, drop 32 random_response)]"
  define plan2 where "plan2 = [(32 :: nat, take 32 second_response), (3, drop 32 second_response)]"
  note f = scripted_fixture [of replies, folded S_def]
  have r1: "concat (map snd plan1) = random_response"
    and r2: "concat (map snd plan2) = second_response"
    by (simp_all add: plan1_def plan2_def)
  have wch1: "chunked_reads (slave (i2cPort S)) (length (requests (i2cPort S))) 4 [(4, wake_ack)]"
    and ch1: "chunked_reads (slave (i2cPort S))
      (length (requests (i2cPort S)) + length [(4 :: nat, wake_ack)]) 35 plan1"
    unfolding plan1_def
    by (rule scripted_rounds [of S replies 0 wake_ack random_response];
        simp add: f replies_def response_bytes)+
  have cap1: "35 \<le> length (inputBuffer S)" and len1: "length (random32Bytes S) = 32"
    by (simp_all add: f)
  have valid1: "random_response ! 0 = 35 \<and>
      random_response ! 33 = fst (spec_crc (take 33 random_response)) \<and>
      random_response ! 34 = snd (spec_crc (take 33 random_response))"
    by (simp add: response_bytes random_vector)
  note total1 = random_fetch_and_accessors [where 'a = 16 and 'b = 32,
      where h = M and debug = False and s = S and wake_plan = "[(4, wake_ack)]"
        and plan = plan1,
      THEN conjunct2, THEN conjunct2, THEN conjunct2, THEN conjunct2, unfolded Let_def r1]
  from total1 wch1 ch1 cap1 len1 valid1 obtain s1 and vi :: "16 word" and vl :: "32 word"
    where u1: "updateRandom32Bytes M False S = Some (Inr (True, s1))"
      and rb1: "random32Bytes s1 = take 32 (drop 1 random_response)"
      and gb1: "getRandomByte M False S = Some (Inr (random_response ! 1, s1))"
      and gi1: "getRandomInt M False S = Some (Inr (vi, s1))"
      and vi: "unat vi = 256 * unat (random_response ! 1) + unat (random_response ! 2)"
      and gl1: "getRandomLong M False S = Some (Inr (vl, s1))"
      and vl: "unat vl = 16777216 * unat (random_response ! 1) + 65536 * unat (random_response ! 2) +
                        256 * unat (random_response ! 3) + unat (random_response ! 4)"
    by auto
  note run1 = random_fetch_and_accessors [where 'a = 16 and 'b = 32,
      where h = M and debug = False and s = S and r = True and s' = s1, THEN conjunct1]
  from run1 u1 obtain wake_rounds rounds
    where wch1': "chunked_reads (slave (i2cPort S)) (length (requests (i2cPort S))) 4 wake_rounds"
      and ch1': "chunked_reads (slave (i2cPort S)) (length (requests (i2cPort S)) + length wake_rounds)
        35 rounds"
      and rq1': "requests (i2cPort s1) =
        requests (i2cPort S) @
        map (\<lambda>(amount, bytes). (i2caddr S, of_nat amount)) (wake_rounds @ rounds)"
      and st1': "sent (i2cPort s1) = sent (i2cPort S) @
        [(0x00, []),
         (i2caddr S, [WORD_ADDRESS_VALUE_COMMAND M, 0x07, COMMAND_OPCODE_RANDOM M, 0x00, 0x00, 0x00,
            fst (spec_crc [0x07, COMMAND_OPCODE_RANDOM M, 0x00, 0x00, 0x00]),
            snd (spec_crc [0x07, COMMAND_OPCODE_RANDOM M, 0x00, 0x00, 0x00])]),
         (i2caddr S, [WORD_ADDRESS_VALUE_IDLE M])]"
      and sl1: "slave (i2cPort s1) = slave (i2cPort S)" and ad1: "i2caddr s1 = i2caddr S"
      and ib1: "inputBuffer s1 = concat (map snd rounds) @ replicate (length (inputBuffer S) - 35) 0"
      and tot1: "length (concat (map snd rounds)) = 35"
    by blast
  have w1: "wake_rounds = [(4, wake_ack)]"
    using wch1' wch1 by (rule chunked_reads_unique)
  have p1: "rounds = plan1"
    using ch1' ch1 unfolding w1 by (rule chunked_reads_unique)
  have rq1: "requests (i2cPort s1) = [(0x60, 4), (0x60, 32), (0x60, 3)]"
    using rq1' by (simp add: w1 p1 plan1_def f)
  have st1: "sent (i2cPort s1) =
      [(0x00, []), (0x60, [0x03, 0x07, 0x1B, 0x00, 0x00, 0x00, 0x24, 0xCD]), (0x60, [0x02])]"
    using st1' by (simp add: f M_def datasheet_macros_def command_vector)
  have d1: "random32Bytes s1 = data32"
    using rb1 by (simp add: response_bytes)
  have wch2: "chunked_reads (slave (i2cPort s1)) (length (requests (i2cPort s1))) 4 [(4, wake_ack)]"
    and ch2: "chunked_reads (slave (i2cPort s1))
      (length (requests (i2cPort s1)) + length [(4 :: nat, wake_ack)]) 35 plan2"
    unfolding plan2_def
    by (rule scripted_rounds [of s1 replies 3 wake_ack second_response];
        simp add: sl1 rq1 f replies_def response_bytes)+
  have cap2: "35 \<le> length (inputBuffer s1)" and len2: "length (random32Bytes s1) = 32"
    using tot1 by (simp_all add: ib1 d1 response_bytes)
  have valid2: "second_response ! 0 = 35 \<and>
      second_response ! 33 = fst (spec_crc (take 33 second_response)) \<and>
      second_response ! 34 = snd (spec_crc (take 33 second_response))"
    by (simp add: response_bytes second_vector)
  note total2 = random_fetch_and_accessors [where 'a = 16 and 'b = 32,
      where h = M and debug = False and s = s1 and wake_plan = "[(4, wake_ack)]"
        and plan = plan2,
      THEN conjunct2, THEN conjunct2, THEN conjunct2, THEN conjunct2, unfolded Let_def r2]
  from total2 wch2 ch2 cap2 len2 valid2 obtain s2
    where u2: "updateRandom32Bytes M False s1 = Some (Inr (True, s2))"
      and rb2: "random32Bytes s2 = take 32 (drop 1 second_response)"
      and gb2: "getRandomByte M False s1 = Some (Inr (second_response ! 1, s2))"
    by auto
  note run2 = random_fetch_and_accessors [where 'a = 16 and 'b = 32,
      where h = M and debug = False and s = s1 and r = True and s' = s2, THEN conjunct1]
  from run2 u2 obtain wake_rounds2 rounds2
    where wch2': "chunked_reads (slave (i2cPort s1)) (length (requests (i2cPort s1))) 4 wake_rounds2"
      and ch2': "chunked_reads (slave (i2cPort s1)) (length (requests (i2cPort s1)) + length wake_rounds2)
        35 rounds2"
      and rq2': "requests (i2cPort s2) =
        requests (i2cPort s1) @
        map (\<lambda>(amount, bytes). (i2caddr s1, of_nat amount)) (wake_rounds2 @ rounds2)"
    by blast
  have w2: "wake_rounds2 = [(4, wake_ack)]"
    using wch2' wch2 by (rule chunked_reads_unique)
  have p2: "rounds2 = plan2"
    using ch2' ch2 unfolding w2 by (rule chunked_reads_unique)
  have rq2: "requests (i2cPort s2) =
      [(0x60, 4), (0x60, 32), (0x60, 3), (0x60, 4), (0x60, 32), (0x60, 3)]"
    using rq2' by (simp add: w2 p2 plan2_def rq1 ad1 f)
  have d2: "random32Bytes s2 = fresh32"
    using rb2 by (simp add: response_bytes)
  have vi': "unat vi = 0x0102" and vl': "unat vl = 0x01020304"
    using vi vl by (simp_all add: response_data)
  have gb1': "getRandomByte M False S = Some (Inr (0x01, s1))"
    and gb2': "getRandomByte M False s1 = Some (Inr (0x21, s2))"
    using gb1 gb2 by (simp_all add: response_data)
  have S: "two_fetches = S"
    by (simp add: two_fetches_def S_def replies_def)
  show ?thesis
    unfolding S M_def [symmetric]
    using u1 d1 rq1 st1 gb1' gi1 vi' gl1 vl' gb2' d2 rq2 by blast
qed



end
